theory Spec2Isabelle
  imports Complex_Main "HOL-Library.Multiset"
begin

section \<open>Values\<close>

text \<open>
  A finite JavaScript number is modelled by the rational it denotes. Every operation the
  pages apply to a number (comparison, \<^verbatim>\<open>Math.floor\<close>, \<^verbatim>\<open>% 1\<close>, the sign of
  a difference) is exact on finite doubles, so it is the same operation on rationals.
  NaN and the infinities are outside the model. A string is a list of characters, one
  per code unit, for code units up to \<^verbatim>\<open>0xFF\<close>. Limits of the machine (memory, the
  quota of the storage) are not modelled.
\<close>

type_synonym number = rat

datatype error = SyntaxError | RangeError

text \<open>\<^verbatim>\<open>a % b\<close> truncates the quotient towards zero (the result has the sign of \<open>a\<close>).\<close>

definition js_trunc :: "number \<Rightarrow> int" where
  "js_trunc x = (if 0 \<le> x then \<lfloor>x\<rfloor> else \<lceil>x\<rceil>)"

definition js_rem :: "number \<Rightarrow> number \<Rightarrow> number" where
  "js_rem a b = a - b * of_int (js_trunc (a / b))"

definition Math_floor :: "number \<Rightarrow> number" where
  "Math_floor x = of_int \<lfloor>x\<rfloor>"

definition Math_max :: "number \<Rightarrow> number \<Rightarrow> number" where
  "Math_max a b = (if a < b then b else a)"

text \<open>
  \<^verbatim>\<open>Array(len)\<close> with a number: an array of \<open>len\<close> holes when \<open>len\<close> is an
  integer in \<open>[0, 2^32 - 1]\<close>, and \<^verbatim>\<open>RangeError: Invalid array length\<close> otherwise.
  \<^verbatim>\<open>.fill(v)\<close> writes \<open>v\<close> into every slot; \<^verbatim>\<open>.map(f)\<close> calls \<open>f\<close> with
  the element and its index.
\<close>

definition Array_ctor :: "number \<Rightarrow> error + unit list" where
  "Array_ctor len =
     (if of_int \<lfloor>len\<rfloor> = len \<and> 0 \<le> len \<and> len < 2 ^ 32
      then Inr (replicate (nat \<lfloor>len\<rfloor>) ())
      else Inl RangeError)"

definition Array_fill :: "'a list \<Rightarrow> 'b \<Rightarrow> 'b list" where
  "Array_fill xs v = map (\<lambda>_. v) xs"

definition Array_map :: "('a \<Rightarrow> nat \<Rightarrow> 'b) \<Rightarrow> 'a list \<Rightarrow> 'b list" where
  "Array_map f xs = map (\<lambda>(i, x). f x i) (enumerate 0 xs)"

section \<open>Star rendering\<close>

text \<open>
  The icons of the fragment \<^verbatim>\<open>renderStars\<close> returns, in the order they are rendered.
  \<open>FaStar i\<close> is the icon with key \<^verbatim>\<open>full-i\<close>, \<open>FaRegStar i\<close> the one with key
  \<^verbatim>\<open>empty-i\<close>; the child \<^verbatim>\<open>false\<close> of an absent half star renders nothing.
\<close>

datatype glyph = FaStar nat | FaStarHalfAlt | FaRegStar nat

definition fullStars :: "number \<Rightarrow> number" where
  "fullStars rating = Math_floor rating"

definition hasHalfStar :: "number \<Rightarrow> bool" where
  "hasHalfStar rating = (1 / 2 \<le> js_rem rating 1)"

definition emptyStars :: "number \<Rightarrow> number" where
  "emptyStars rating =
     Math_max 0 (10 - fullStars rating - (if hasHalfStar rating then 1 else 0))"

definition renderStars :: "number \<Rightarrow> error + glyph list" where
  "renderStars rating =
     (case Array_ctor (fullStars rating) of
        Inl e \<Rightarrow> Inl e
      | Inr fullArr \<Rightarrow>
          (case Array_ctor (emptyStars rating) of
             Inl e \<Rightarrow> Inl e
           | Inr emptyArr \<Rightarrow>
               Inr (Array_map (\<lambda>_ i. FaStar i) (Array_fill fullArr (0::number))
                    @ (if hasHalfStar rating then [FaStarHalfAlt] else [])
                    @ Array_map (\<lambda>_ i. FaRegStar i) (Array_fill emptyArr (0::number)))))"

text \<open>The row of glyphs the specification describes: full stars, a half star, empty stars.\<close>

definition glyph_row :: "nat \<Rightarrow> bool \<Rightarrow> nat \<Rightarrow> glyph list" where
  "glyph_row nfull half nempty =
     map FaStar [0..<nfull] @ (if half then [FaStarHalfAlt] else []) @ map FaRegStar [0..<nempty]"

section \<open>Sorting the reviews\<close>

text \<open>
  \<^verbatim>\<open>[...reviews].sort(cmp)\<close> copies the array and sorts the copy in place, and the
  comparator of \<open>newest\<close> looks its arguments up in \<^verbatim>\<open>reviews\<close> by identity
  (\<^verbatim>\<open>indexOf\<close> compares with \<^verbatim>\<open>===\<close>). So arrays live in a store, and an object
  is its reference paired with its fields. The reviews of an array are distinct objects:
  each is made by the object literal of \<^verbatim>\<open>handleReviewSubmit\<close> or by \<^verbatim>\<open>JSON.parse\<close>.
\<close>

type_synonym 'a obj = "nat \<times> 'a"

record 'a heap =
  arrays :: "nat \<rightharpoonup> 'a list"
  fresh :: nat

definition spread :: "nat \<Rightarrow> 'a heap \<Rightarrow> (nat \<times> 'a heap) option" where
  "spread a h =
     (case arrays h a of
        None \<Rightarrow> None
      | Some xs \<Rightarrow>
          Some (fresh h, h\<lparr>arrays := (arrays h)(fresh h \<mapsto> xs), fresh := Suc (fresh h)\<rparr>))"

fun indexOf_from :: "nat \<Rightarrow> 'a obj list \<Rightarrow> 'a obj \<Rightarrow> number" where
  "indexOf_from i [] x = - 1"
| "indexOf_from i (y # ys) x = (if fst y = fst x then of_nat i else indexOf_from (Suc i) ys x)"

definition Array_indexOf :: "'a obj list \<Rightarrow> 'a obj \<Rightarrow> number" where
  "Array_indexOf xs x = indexOf_from 0 xs x"

text \<open>
  \<^verbatim>\<open>Array.prototype.sort\<close> is stable. \<open>cmp a b < 0\<close> puts \<open>a\<close> first,
  \<open>0 < cmp a b\<close> puts \<open>b\<close> first, and \<open>0\<close> keeps the order of the input.
\<close>

fun insert_sorted :: "('a \<Rightarrow> 'a \<Rightarrow> number) \<Rightarrow> 'a \<Rightarrow> 'a list \<Rightarrow> 'a list" where
  "insert_sorted cmp x [] = [x]"
| "insert_sorted cmp x (y # ys) =
     (if cmp x y \<le> 0 then x # y # ys else y # insert_sorted cmp x ys)"

definition stable_sort :: "('a \<Rightarrow> 'a \<Rightarrow> number) \<Rightarrow> 'a list \<Rightarrow> 'a list" where
  "stable_sort cmp xs = foldr (insert_sorted cmp) xs []"

definition Array_sort :: "('a \<Rightarrow> 'a \<Rightarrow> number) \<Rightarrow> nat \<Rightarrow> 'a heap \<Rightarrow> (nat \<times> 'a heap) option" where
  "Array_sort cmp a h =
     (case arrays h a of
        None \<Rightarrow> None
      | Some xs \<Rightarrow> Some (a, h\<lparr>arrays := (arrays h)(a \<mapsto> stable_sort cmp xs)\<rparr>))"

record Review =
  rating :: number
  comment :: string

datatype sort_option = Newest | Highest | Lowest

text \<open>
  \<open>reviews\<close> is the address of the array the state holds. The result is the address of
  the sorted copy, with the store after the call.
\<close>

definition sortedReviews ::
  "sort_option \<Rightarrow> nat \<Rightarrow> Review obj heap \<Rightarrow> (nat \<times> Review obj heap) option" where
  "sortedReviews sortOption reviews h =
     (case spread reviews h of
        None \<Rightarrow> None
      | Some (copy, h1) \<Rightarrow>
          Array_sort
            (\<lambda>a b.
               if sortOption = Newest then
                 (case arrays h1 reviews of
                    None \<Rightarrow> 0
                  | Some rs \<Rightarrow> Array_indexOf rs b - Array_indexOf rs a)
               else if sortOption = Highest then rating (snd b) - rating (snd a)
               else rating (snd a) - rating (snd b))
            copy h1)"

section \<open>JSON text\<close>

text \<open>
  The values \<^verbatim>\<open>JSON.parse\<close> returns and \<^verbatim>\<open>JSON.stringify\<close> writes. An object is the
  list of its own properties, in the order in which they are enumerated.
\<close>

datatype json =
    JNull
  | JBool bool
  | JNumber number
  | JString string
  | JArray "json list"
  | JObject "(string \<times> json) list"

subsection \<open>Numbers to text\<close>

text \<open>
  A number prints as its decimal expansion: the digits of the integer part, and after a
  point the digits of the fraction. (Outside \<open>[1e-6, 1e21)\<close> JavaScript writes the same
  number with an exponent; the pages store ratings between 1 and 10.) The fraction of a
  number with denominator \<open>q\<close> has fewer than \<open>q\<close> digits, so \<open>q\<close> bounds the recursion.
\<close>

definition digit_char :: "nat \<Rightarrow> char" where
  "digit_char d = char_of (48 + d)"

fun nat_digits :: "nat \<Rightarrow> string" where
  "nat_digits n =
     (if n < 10 then [digit_char n] else nat_digits (n div 10) @ [digit_char (n mod 10)])"

declare nat_digits.simps [simp del]

fun frac_digits :: "nat \<Rightarrow> rat \<Rightarrow> string" where
  "frac_digits 0 f = []"
| "frac_digits (Suc n) f =
     (if f = 0 then []
      else digit_char (nat \<lfloor>10 * f\<rfloor>) # frac_digits n (10 * f - of_int \<lfloor>10 * f\<rfloor>))"

definition Number_toString :: "number \<Rightarrow> string" where
  "Number_toString x =
     (let a = \<bar>x\<bar>; f = a - of_int \<lfloor>a\<rfloor>
      in (if x < 0 then ''-'' else [])
         @ nat_digits (nat \<lfloor>a\<rfloor>)
         @ (if f = 0 then [] else ''.'' @ frac_digits (nat (snd (quotient_of a))) f))"

subsection \<open>\<^verbatim>\<open>JSON.stringify\<close>\<close>

text \<open>
  A string is written between double quotes, with the quote, the backslash and the
  control characters escaped; an array and an object are written without white space.
\<close>

definition hex_char :: "nat \<Rightarrow> char" where
  "hex_char d = (if d < 10 then char_of (48 + d) else char_of (87 + d))"

definition quote_char :: "char \<Rightarrow> string" where
  "quote_char c =
     (let n = (of_char c :: nat) in
      if n = 8 then [CHR 0x5C, CHR ''b'']
      else if n = 9 then [CHR 0x5C, CHR ''t'']
      else if n = 10 then [CHR 0x5C, CHR ''n'']
      else if n = 12 then [CHR 0x5C, CHR ''f'']
      else if n = 13 then [CHR 0x5C, CHR ''r'']
      else if n = 34 then [CHR 0x5C, CHR 0x22]
      else if n = 92 then [CHR 0x5C, CHR 0x5C]
      else if n < 32 then
        [CHR 0x5C, CHR ''u'', CHR ''0'', CHR ''0'', hex_char (n div 16), hex_char (n mod 16)]
      else [c])"

definition QuoteJSONString :: "string \<Rightarrow> string" where
  "QuoteJSONString s = [CHR 0x22] @ concat (map quote_char s) @ [CHR 0x22]"

fun join_comma :: "string list \<Rightarrow> string" where
  "join_comma [] = []"
| "join_comma [x] = x"
| "join_comma (x # y # ys) = x @ '','' @ join_comma (y # ys)"

fun JSON_stringify :: "json \<Rightarrow> string" where
  "JSON_stringify JNull = ''null''"
| "JSON_stringify (JBool b) = (if b then ''true'' else ''false'')"
| "JSON_stringify (JNumber x) = Number_toString x"
| "JSON_stringify (JString s) = QuoteJSONString s"
| "JSON_stringify (JArray vs) = ''['' @ join_comma (map JSON_stringify vs) @ '']''"
| "JSON_stringify (JObject ms) =
     ''{'' @ join_comma (map (\<lambda>m. QuoteJSONString (fst m) @ '':'' @ JSON_stringify (snd m)) ms)
     @ ''}''"

subsection \<open>Text to numbers\<close>

definition is_ws :: "char \<Rightarrow> bool" where
  "is_ws c = (c = CHR 0x20 \<or> c = CHR 0x09 \<or> c = CHR 0x0A \<or> c = CHR 0x0D)"

definition skip_ws :: "string \<Rightarrow> string" where
  "skip_ws s = dropWhile is_ws s"

definition is_digit :: "char \<Rightarrow> bool" where
  "is_digit c = (48 \<le> (of_char c :: nat) \<and> (of_char c :: nat) \<le> 57)"

definition digit_val :: "char \<Rightarrow> nat" where
  "digit_val c = of_char c - 48"

definition digits_val :: "string \<Rightarrow> nat" where
  "digits_val ds = foldl (\<lambda>a c. 10 * a + digit_val c) 0 ds"

definition frac_val :: "string \<Rightarrow> rat" where
  "frac_val ds = foldr (\<lambda>c a. (of_nat (digit_val c) + a) / 10) ds 0"

definition pow10 :: "int \<Rightarrow> rat" where
  "pow10 e = (if 0 \<le> e then 10 ^ nat e else 1 / 10 ^ nat (- e))"

definition parse_int_part :: "string \<Rightarrow> (nat \<times> string) option" where
  "parse_int_part s =
     (case s of
        [] \<Rightarrow> None
      | c # cs \<Rightarrow>
          if c = CHR ''0'' then Some (0, cs)
          else if is_digit c then Some (digits_val (takeWhile is_digit s), dropWhile is_digit s)
          else None)"

definition parse_frac_part :: "string \<Rightarrow> (rat \<times> string) option" where
  "parse_frac_part s =
     (case s of
        [] \<Rightarrow> Some (0, s)
      | c # cs \<Rightarrow>
          if c = CHR ''.'' then
            (if takeWhile is_digit cs = [] then None
             else Some (frac_val (takeWhile is_digit cs), dropWhile is_digit cs))
          else Some (0, s))"

definition parse_exp_sign :: "string \<Rightarrow> int \<times> string" where
  "parse_exp_sign s =
     (case s of
        [] \<Rightarrow> (1, s)
      | c # cs \<Rightarrow>
          if c = CHR ''+'' then (1, cs) else if c = CHR ''-'' then (- 1, cs) else (1, s))"

definition parse_exp_part :: "string \<Rightarrow> (int \<times> string) option" where
  "parse_exp_part s =
     (case s of
        [] \<Rightarrow> Some (0, s)
      | c # cs \<Rightarrow>
          if c = CHR ''e'' \<or> c = CHR ''E'' then
            (case parse_exp_sign cs of
               (sg, r) \<Rightarrow>
                 if takeWhile is_digit r = [] then None
                 else Some (sg * int (digits_val (takeWhile is_digit r)), dropWhile is_digit r))
          else Some (0, s))"

definition parse_number :: "string \<Rightarrow> (number \<times> string) option" where
  "parse_number s =
     (case (case s of [] \<Rightarrow> (1, s) | c # cs \<Rightarrow> if c = CHR ''-'' then (- 1, cs) else (1, s)) of
        (sg, s1) \<Rightarrow>
          (case parse_int_part s1 of
             None \<Rightarrow> None
           | Some (i, s2) \<Rightarrow>
               (case parse_frac_part s2 of
                  None \<Rightarrow> None
                | Some (f, s3) \<Rightarrow>
                    (case parse_exp_part s3 of
                       None \<Rightarrow> None
                     | Some (e, s4) \<Rightarrow> Some (sg * (of_nat i + f) * pow10 e, s4)))))"

subsection \<open>Text to strings\<close>

text \<open>
  The body of a string runs to the closing quote. A control character is not allowed in
  it; a backslash starts one of the escapes. (An escape \<^verbatim>\<open>\uXXXX\<close> above \<^verbatim>\<open>0xFF\<close>
  denotes a code unit outside the model of strings.)
\<close>

definition hex_val :: "char \<Rightarrow> nat option" where
  "hex_val c =
     (let n = (of_char c :: nat) in
      if 48 \<le> n \<and> n \<le> 57 then Some (n - 48)
      else if 97 \<le> n \<and> n \<le> 102 then Some (n - 87)
      else if 65 \<le> n \<and> n \<le> 70 then Some (n - 55)
      else None)"

definition unescape :: "char \<Rightarrow> char option" where
  "unescape c =
     (if c = CHR 0x22 \<or> c = CHR 0x5C \<or> c = CHR ''/'' then Some c
      else if c = CHR ''b'' then Some (CHR 0x08)
      else if c = CHR ''f'' then Some (CHR 0x0C)
      else if c = CHR ''n'' then Some (CHR 0x0A)
      else if c = CHR ''r'' then Some (CHR 0x0D)
      else if c = CHR ''t'' then Some (CHR 0x09)
      else None)"

definition hex4 :: "char \<Rightarrow> char \<Rightarrow> char \<Rightarrow> char \<Rightarrow> nat option" where
  "hex4 h1 h2 h3 h4 =
     (case (hex_val h1, hex_val h2, hex_val h3, hex_val h4) of
        (Some a, Some b, Some c, Some d) \<Rightarrow> Some (((a * 16 + b) * 16 + c) * 16 + d)
      | _ \<Rightarrow> None)"

fun parse_string_body :: "string \<Rightarrow> (string \<times> string) option" where
  "parse_string_body [] = None"
| "parse_string_body (c # cs) =
     (if c = CHR 0x22 then Some ([], cs)
      else if c = CHR 0x5C then
        (case cs of
           [] \<Rightarrow> None
         | e # es \<Rightarrow>
             if e = CHR ''u'' then
               (case es of
                  h1 # h2 # h3 # h4 # r \<Rightarrow>
                    (case hex4 h1 h2 h3 h4 of
                       None \<Rightarrow> None
                     | Some n \<Rightarrow> map_option (apfst ((#) (char_of n))) (parse_string_body r))
                | _ \<Rightarrow> None)
             else
               (case unescape e of
                  None \<Rightarrow> None
                | Some x \<Rightarrow> map_option (apfst ((#) x)) (parse_string_body es)))
      else if (of_char c :: nat) < 32 then None
      else map_option (apfst ((#) c)) (parse_string_body cs))"

subsection \<open>\<^verbatim>\<open>JSON.parse\<close>\<close>

text \<open>
  A parser returns what it read and the rest of the text, or rejects the text. The
  parsers of values, of the elements of an array and of the members of an object call one
  another, so they descend on fuel.
\<close>

datatype 'a parsed = Parsed 'a string | Rejected | OutOfFuel

definition bind_parsed :: "'a parsed \<Rightarrow> ('a \<Rightarrow> string \<Rightarrow> 'b parsed) \<Rightarrow> 'b parsed" where
  "bind_parsed p f = (case p of Parsed v r \<Rightarrow> f v r | Rejected \<Rightarrow> Rejected | OutOfFuel \<Rightarrow> OutOfFuel)"

definition parse_literal :: "string \<Rightarrow> 'a \<Rightarrow> string \<Rightarrow> 'a parsed" where
  "parse_literal w v s = (if take (length w) s = w then Parsed v (drop (length w) s) else Rejected)"

definition parse_string :: "string \<Rightarrow> string parsed" where
  "parse_string s =
     (case s of
        [] \<Rightarrow> Rejected
      | c # cs \<Rightarrow>
          if c = CHR 0x22 then
            (case parse_string_body cs of None \<Rightarrow> Rejected | Some (str, r) \<Rightarrow> Parsed str r)
          else Rejected)"

text \<open>
  The own properties of an object: a key that comes again replaces the value and keeps
  the place of the first; keys that are array indices come first, in numeric order.
\<close>

definition is_index_key :: "string \<Rightarrow> bool" where
  "is_index_key k = (k \<noteq> [] \<and> list_all is_digit k \<and> (hd k = CHR ''0'' \<longrightarrow> k = ''0'')
     \<and> digits_val k < 2 ^ 32 - 1)"

definition obj_put :: "string \<Rightarrow> 'a \<Rightarrow> (string \<times> 'a) list \<Rightarrow> (string \<times> 'a) list" where
  "obj_put k v ms =
     (if k \<in> fst ` set ms then map (\<lambda>m. if fst m = k then (k, v) else m) ms else ms @ [(k, v)])"

definition make_object :: "(string \<times> 'a) list \<Rightarrow> (string \<times> 'a) list" where
  "make_object ms =
     (let ps = foldl (\<lambda>acc m. obj_put (fst m) (snd m) acc) [] ms
      in sort_key (\<lambda>m. digits_val (fst m)) (filter (\<lambda>m. is_index_key (fst m)) ps)
         @ filter (\<lambda>m. \<not> is_index_key (fst m)) ps)"

fun parse_value :: "nat \<Rightarrow> string \<Rightarrow> json parsed"
  and parse_elements :: "nat \<Rightarrow> string \<Rightarrow> json list parsed"
  and parse_members :: "nat \<Rightarrow> string \<Rightarrow> (string \<times> json) list parsed"
where
  "parse_value 0 s = OutOfFuel"
| "parse_value (Suc n) s =
     (case skip_ws s of
        [] \<Rightarrow> Rejected
      | c # cs \<Rightarrow>
          if c = CHR ''['' then
            (case skip_ws cs of
               [] \<Rightarrow> Rejected
             | d # ds \<Rightarrow>
                 if d = CHR '']'' then Parsed (JArray []) ds
                 else bind_parsed (parse_elements n cs) (\<lambda>vs r. Parsed (JArray vs) r))
          else if c = CHR ''{'' then
            (case skip_ws cs of
               [] \<Rightarrow> Rejected
             | d # ds \<Rightarrow>
                 if d = CHR ''}'' then Parsed (JObject []) ds
                 else bind_parsed (parse_members n cs) (\<lambda>ms r. Parsed (JObject (make_object ms)) r))
          else if c = CHR 0x22 then
            bind_parsed (parse_string (c # cs)) (\<lambda>str r. Parsed (JString str) r)
          else if c = CHR ''t'' then parse_literal ''true'' (JBool True) (c # cs)
          else if c = CHR ''f'' then parse_literal ''false'' (JBool False) (c # cs)
          else if c = CHR ''n'' then parse_literal ''null'' JNull (c # cs)
          else
            (case parse_number (c # cs) of
               None \<Rightarrow> Rejected
             | Some (x, r) \<Rightarrow> Parsed (JNumber x) r))"
| "parse_elements 0 s = OutOfFuel"
| "parse_elements (Suc n) s =
     bind_parsed (parse_value n s) (\<lambda>v r.
       case skip_ws r of
         [] \<Rightarrow> Rejected
       | c # cs \<Rightarrow>
           if c = CHR '','' then bind_parsed (parse_elements n cs) (\<lambda>vs r'. Parsed (v # vs) r')
           else if c = CHR '']'' then Parsed [v] cs
           else Rejected)"
| "parse_members 0 s = OutOfFuel"
| "parse_members (Suc n) s =
     bind_parsed (parse_string (skip_ws s)) (\<lambda>k r.
       case skip_ws r of
         [] \<Rightarrow> Rejected
       | c # cs \<Rightarrow>
           if c = CHR '':'' then
             bind_parsed (parse_value n cs) (\<lambda>v r'.
               case skip_ws r' of
                 [] \<Rightarrow> Rejected
               | d # ds \<Rightarrow>
                   if d = CHR '','' then
                     bind_parsed (parse_members n ds) (\<lambda>ms r''. Parsed ((k, v) # ms) r'')
                   else if d = CHR ''}'' then Parsed [(k, v)] ds
                   else Rejected)
           else Rejected)"

declare parse_value.simps [simp del] parse_elements.simps [simp del] parse_members.simps [simp del]

text \<open>
  \<^verbatim>\<open>JSON.parse\<close> reads one value, with white space around it, and raises
  \<^verbatim>\<open>SyntaxError\<close> on any other text. Twice the length of the text, and one, is fuel
  enough for every text.
\<close>

definition JSON_parse :: "string \<Rightarrow> error + json" where
  "JSON_parse s =
     (case parse_value (Suc (2 * length s)) s of
        Parsed v r \<Rightarrow> if skip_ws r = [] then Inr v else Inl SyntaxError
      | Rejected \<Rightarrow> Inl SyntaxError
      | OutOfFuel \<Rightarrow> Inl SyntaxError)"

subsection \<open>Well-formed numbers and texts\<close>

text \<open>
  The rationals that model numbers have a finite decimal expansion (a double is a dyadic
  rational): a power of ten makes them an integer, and then ten to the power of their
  denominator does.
\<close>

definition finite_decimal :: "number \<Rightarrow> bool" where
  "finite_decimal x = (frac (x * 10 ^ nat (snd (quotient_of x))) = 0)"

text \<open>What may follow a number in a text: no digit, no point, no exponent.\<close>

definition ends_number :: "string \<Rightarrow> bool" where
  "ends_number s =
     (case s of
        [] \<Rightarrow> True
      | c # _ \<Rightarrow> \<not> is_digit c \<and> c \<noteq> CHR ''.'' \<and> c \<noteq> CHR ''e'' \<and> c \<noteq> CHR ''E'')"

section \<open>The review store\<close>

text \<open>
  \<^verbatim>\<open>localStorage\<close>: the entries, and the calls of \<^verbatim>\<open>setItem\<close> made so far (so that
  a path that does not save can be told from one that saves what was there).
\<close>

record Storage =
  items :: "string \<rightharpoonup> string"
  setItem_calls :: "(string \<times> string) list"

definition getItem :: "Storage \<Rightarrow> string \<Rightarrow> string option" where
  "getItem st k = items st k"

definition setItem :: "Storage \<Rightarrow> string \<Rightarrow> string \<Rightarrow> Storage" where
  "setItem st k v = st\<lparr>items := (items st)(k \<mapsto> v), setItem_calls := setItem_calls st @ [(k, v)]\<rparr>"

definition storage_key :: "number \<Rightarrow> string" where
  "storage_key movieId = ''movie-reviews-'' @ Number_toString movieId"

text \<open>The JavaScript value of a \<^verbatim>\<open>Review[]\<close>: an array of objects with the two properties.\<close>

definition js_of_review :: "Review \<Rightarrow> json" where
  "js_of_review r = JObject [(''rating'', JNumber (rating r)), (''comment'', JString (comment r))]"

definition js_of_reviews :: "Review list \<Rightarrow> json" where
  "js_of_reviews rs = JArray (map js_of_review rs)"

text \<open>
  The reviews a JavaScript value holds, when it is an array of objects with exactly the
  two properties, a number and a string.
\<close>

definition review_of_js :: "json \<Rightarrow> Review option" where
  "review_of_js j =
     (case j of
        JObject [(k1, JNumber x), (k2, JString c)] \<Rightarrow>
          if k1 = ''rating'' \<and> k2 = ''comment'' then Some \<lparr>rating = x, comment = c\<rparr> else None
      | _ \<Rightarrow> None)"

definition reviews_of_js :: "json \<Rightarrow> Review list option" where
  "reviews_of_js j = (case j of JArray vs \<Rightarrow> those (map review_of_js vs) | _ \<Rightarrow> None)"

text \<open>
  \<^verbatim>\<open>reviews ? JSON.parse(reviews) : []\<close>: \<^verbatim>\<open>null\<close> and the empty string are falsy.
  What \<^verbatim>\<open>JSON.parse\<close> returns is returned as it is.
\<close>

definition loadReviewsFromLocalStorage :: "Storage \<Rightarrow> number \<Rightarrow> error + json" where
  "loadReviewsFromLocalStorage ls movieId =
     (case getItem ls (storage_key movieId) of
        None \<Rightarrow> Inr (JArray [])
      | Some reviews \<Rightarrow> if reviews = [] then Inr (JArray []) else JSON_parse reviews)"

definition saveReviewsToLocalStorage :: "Storage \<Rightarrow> number \<Rightarrow> Review list \<Rightarrow> Storage" where
  "saveReviewsToLocalStorage ls movieId reviews =
     setItem ls (storage_key movieId) (JSON_stringify (js_of_reviews reviews))"

text \<open>The text of a review, after the opening brace.\<close>

definition review_text :: "Review \<Rightarrow> string" where
  "review_text r =
     QuoteJSONString ''rating'' @ CHR '':'' # Number_toString (rating r) @ CHR '','' #
     QuoteJSONString ''comment'' @ CHR '':'' # QuoteJSONString (comment r) @ [CHR ''}'']"

section \<open>The page\<close>

record Movie =
  id' :: number
  title :: string
  overview :: string
  poster_path :: string
  vote_average :: number

record Trailer =
  key :: string
  site :: string

datatype tab = Details | Reviews

text \<open>The state of the component (one field per \<^verbatim>\<open>useState\<close>), and the browser's storage.\<close>

record Home =
  movies :: "Movie list"
  filteredMovies :: "Movie list"
  currentMovie :: "Movie option"
  rating_state :: "number option"
  trailer :: "Trailer option"
  comment_state :: string
  reviews :: "Review list"
  isModalOpen :: bool
  errorMessage :: string
  activeTab :: tab
  sortOption :: sort_option
  localStorage :: Storage

definition initial :: "Storage \<Rightarrow> Home" where
  "initial ls =
     \<lparr>movies = [], filteredMovies = [], currentMovie = None, rating_state = None,
      trailer = None, comment_state = [], reviews = [], isModalOpen = False,
      errorMessage = [], activeTab = Details, sortOption = Newest, localStorage = ls\<rparr>"

definition rating_message :: string where
  "rating_message = ''Rating must be between 1 and 10.''"

definition handleReviewSubmit :: "Home \<Rightarrow> Home" where
  "handleReviewSubmit s =
     (case currentMovie s of
        None \<Rightarrow> s
      | Some movie \<Rightarrow>
          (case rating_state s of
             None \<Rightarrow> s
           | Some r \<Rightarrow>
               if comment_state s = [] then s
               else if r < 1 \<or> 10 < r then s\<lparr>errorMessage := rating_message\<rparr>
               else
                 (let newReview = \<lparr>rating = r, comment = comment_state s\<rparr>;
                      updatedReviews = reviews s @ [newReview]
                  in s\<lparr>reviews := updatedReviews,
                       localStorage :=
                         saveReviewsToLocalStorage (localStorage s) (id' movie) updatedReviews,
                       rating_state := None,
                       comment_state := [],
                       errorMessage := []\<rparr>)))"

text \<open>\<open>v\<close> is \<^verbatim>\<open>Number(e.target.value)\<close>, the number typed into the rating input.\<close>

definition handleRatingChange :: "number \<Rightarrow> Home \<Rightarrow> Home" where
  "handleRatingChange v s =
     s\<lparr>errorMessage := (if v < 1 \<or> 10 < v then rating_message else []),
       rating_state := Some v\<rparr>"

text \<open>
  The states the page can be in. \<^verbatim>\<open>setRating\<close> and \<^verbatim>\<open>setErrorMessage\<close> are called
  by \<^verbatim>\<open>handleRatingChange\<close> and \<^verbatim>\<open>handleReviewSubmit\<close> only; every other handler
  and effect leaves the two fields as they are, whatever else it changes.
\<close>

inductive reachable :: "Home \<Rightarrow> bool" where
  start: "reachable (initial ls)"
| ratingChange: "reachable s \<Longrightarrow> reachable (handleRatingChange v s)"
| reviewSubmit: "reachable s \<Longrightarrow> reachable (handleReviewSubmit s)"
| other: "reachable s \<Longrightarrow> rating_state s' = rating_state s \<Longrightarrow> errorMessage s' = errorMessage s
          \<Longrightarrow> reachable s'"

text \<open>
  The orders the specification describes: the reverse of the insertion order, and the
  stable sorts by rating, descending and ascending.
\<close>

definition ordered :: "sort_option \<Rightarrow> Review obj list \<Rightarrow> Review obj list" where
  "ordered so xs =
     (case so of
        Newest \<Rightarrow> rev xs
      | Highest \<Rightarrow> sort_key (\<lambda>x. - rating (snd x)) xs
      | Lowest \<Rightarrow> sort_key (\<lambda>x. rating (snd x)) xs)"

section \<open>Examples\<close>

definition empty_storage :: Storage where
  "empty_storage = \<lparr>items = Map.empty, setItem_calls = []\<rparr>"

definition example_review :: Review where
  "example_review = \<lparr>rating = 7, comment = ''Good''\<rparr>"

definition example_review_half :: Review where
  "example_review_half = \<lparr>rating = 15 / 2, comment = ''A \"B\"''\<rparr>"

definition example_movie :: Movie where
  "example_movie =
     \<lparr>id' = 42, title = ''Alien'', overview = ''In space'', poster_path = ''/alien.jpg'',
      vote_average = 17 / 2\<rparr>"

text \<open>The reviews tab of a selected movie, nothing typed yet.\<close>

definition example_page :: Home where
  "example_page =
     (initial empty_storage)\<lparr>currentMovie := Some example_movie, isModalOpen := True,
        activeTab := Reviews\<rparr>"

definition example_reviews :: "Review obj list" where
  "example_reviews =
     [(0, \<lparr>rating = 3, comment = ''A''\<rparr>), (1, \<lparr>rating = 9, comment = ''B''\<rparr>),
      (2, \<lparr>rating = 1, comment = ''C''\<rparr>)]"

definition example_heap :: "Review obj heap" where
  "example_heap = \<lparr>arrays = [0 \<mapsto> example_reviews], fresh = 1\<rparr>"

section \<open>Star rendering: proofs\<close>

lemma Array_map_fill:
  "Array_map (\<lambda>_ i. g i) (Array_fill (replicate n u) v) = map g [0..<n]"
proof -
  have "Array_map (\<lambda>_ i. g i) (Array_fill (replicate n u) v) =
        map (\<lambda>(i, x). g i) (enumerate 0 (replicate n v))"
    by (simp add: Array_map_def Array_fill_def)
  also have "\<dots> = map (g \<circ> fst) (enumerate 0 (replicate n v))"
    by (rule map_cong) auto
  also have "\<dots> = map g (map fst (enumerate 0 (replicate n v)))"
    by (simp only: map_map)
  also have "\<dots> = map g [0..<n]"
    by (simp only: map_fst_enumerate length_replicate add_0)
  finally show ?thesis .
qed

lemma js_rem_one_nonneg: "0 \<le> r \<Longrightarrow> js_rem r 1 = frac r"
  by (simp add: js_rem_def js_trunc_def frac_def)

lemma Array_ctor_int:
  "0 \<le> k \<Longrightarrow> k < 2 ^ 32 \<Longrightarrow> Array_ctor (of_int k) = Inr (replicate (nat k) ())"
  by (simp add: Array_ctor_def)

lemma Array_ctor_negative: "x < 0 \<Longrightarrow> Array_ctor x = Inl RangeError"
  by (simp add: Array_ctor_def)

lemma Array_ctor_large: "2 ^ 32 \<le> x \<Longrightarrow> Array_ctor x = Inl RangeError"
  by (simp add: Array_ctor_def)

lemma Math_max_int: "Math_max 0 (of_int k) = of_int (max 0 k)"
  by (simp add: Math_max_def max_def)

lemma hasHalfStar_nonneg: "0 \<le> r \<Longrightarrow> hasHalfStar r = (1 / 2 \<le> frac r)"
  by (simp add: hasHalfStar_def js_rem_one_nonneg)

lemma emptyStars_int:
  "emptyStars r = of_int (max 0 (10 - \<lfloor>r\<rfloor> - (if hasHalfStar r then 1 else 0)))"
proof -
  have "10 - fullStars r - (if hasHalfStar r then 1 else 0) =
        (of_int (10 - \<lfloor>r\<rfloor> - (if hasHalfStar r then 1 else 0)) :: rat)"
    by (simp add: fullStars_def Math_floor_def)
  then show ?thesis
    unfolding emptyStars_def by (simp only: Math_max_int)
qed

lemma emptyStars_nonneg: "0 \<le> emptyStars r"
  by (simp add: emptyStars_def Math_max_def)

lemma renderStars_nonneg:
  assumes "0 \<le> r" and "r < 2 ^ 32"
  shows "renderStars r =
     Inr (glyph_row (nat \<lfloor>r\<rfloor>) (hasHalfStar r)
            (nat (max 0 (10 - \<lfloor>r\<rfloor> - (if hasHalfStar r then 1 else 0)))))"
proof -
  have f0: "0 \<le> \<lfloor>r\<rfloor>" using assms by simp
  have f1: "\<lfloor>r\<rfloor> < 2 ^ 32" using assms by (simp add: floor_less_iff)
  let ?e = "max 0 (10 - \<lfloor>r\<rfloor> - (if hasHalfStar r then 1 else 0))"
  have e0: "0 \<le> ?e" by simp
  have "max 0 (10 - k - (if b then 1 else 0)) < 2 ^ 32" if "0 \<le> k" for k :: int and b
    using that by (simp add: max_def)
  from this [OF f0] have e1: "?e < 2 ^ 32" .
  show ?thesis
    unfolding renderStars_def emptyStars_int
    by (simp only: fullStars_def Math_floor_def Array_ctor_int [OF f0 f1] Array_ctor_int [OF e0 e1]
        sum.case Array_map_fill glyph_row_def)
qed

lemma renderStars_negative: "r < 0 \<Longrightarrow> renderStars r = Inl RangeError"
proof -
  assume "r < 0"
  then have "fullStars r < 0" by (simp add: fullStars_def Math_floor_def floor_less_iff)
  then show ?thesis
    by (simp add: renderStars_def Array_ctor_negative)
qed

lemma renderStars_large: "2 ^ 32 \<le> r \<Longrightarrow> renderStars r = Inl RangeError"
proof -
  assume "2 ^ 32 \<le> r"
  then have "(2 ^ 32 :: rat) \<le> fullStars r"
    by (simp add: fullStars_def Math_floor_def le_floor_iff)
  then show ?thesis
    by (simp add: renderStars_def Array_ctor_large)
qed

lemma half_star_below_floor:
  fixes r :: rat
  assumes "r \<le> 10" and "1 / 2 \<le> frac r"
  shows "\<lfloor>r\<rfloor> \<le> 9"
proof -
  have "of_int \<lfloor>r\<rfloor> + frac r = r" by (simp add: frac_def)
  with assms have "(of_int \<lfloor>r\<rfloor> :: rat) < 10" by linarith
  then have "\<lfloor>r\<rfloor> < 10" by (simp only: of_int_less_numeral_iff)
  then show ?thesis by simp
qed

lemma length_glyph_row: "length (glyph_row a h b) = a + (if h then 1 else 0) + b"
  by (simp add: glyph_row_def)

text \<open>
  C7. For a rating within \<open>[0, 10]\<close>, \<open>renderStars\<close> returns \<open>floor rating\<close> full stars,
  then a half star exactly when the fractional part of the rating is at least one half,
  then \<open>max 0 (10 - full - half)\<close> empty stars, in this order and ten glyphs in all.
\<close>

theorem renderStars_ten_glyphs:
  assumes "0 \<le> r" and "r \<le> 10"
  shows "renderStars r =
           Inr (glyph_row (nat \<lfloor>r\<rfloor>) (1 / 2 \<le> frac r)
                  (nat (max 0 (10 - \<lfloor>r\<rfloor> - (if 1 / 2 \<le> frac r then 1 else 0)))))
         \<and> fullStars r = of_int \<lfloor>r\<rfloor>
         \<and> hasHalfStar r = (1 / 2 \<le> frac r)
         \<and> emptyStars r = of_int (max 0 (10 - \<lfloor>r\<rfloor> - (if 1 / 2 \<le> frac r then 1 else 0)))
         \<and> length (glyph_row (nat \<lfloor>r\<rfloor>) (1 / 2 \<le> frac r)
                  (nat (max 0 (10 - \<lfloor>r\<rfloor> - (if 1 / 2 \<le> frac r then 1 else 0))))) = 10"
proof -
  have h: "hasHalfStar r = (1 / 2 \<le> frac r)"
    using assms(1) by (rule hasHalfStar_nonneg)
  have "r < 2 ^ 32" using assms(2) by simp
  from renderStars_nonneg [OF assms(1) this]
  have 1: "renderStars r =
           Inr (glyph_row (nat \<lfloor>r\<rfloor>) (1 / 2 \<le> frac r)
                  (nat (max 0 (10 - \<lfloor>r\<rfloor> - (if 1 / 2 \<le> frac r then 1 else 0)))))"
    by (simp only: h)
  have 2: "fullStars r = of_int \<lfloor>r\<rfloor>"
    by (simp add: fullStars_def Math_floor_def)
  have 3: "emptyStars r = of_int (max 0 (10 - \<lfloor>r\<rfloor> - (if 1 / 2 \<le> frac r then 1 else 0)))"
    using emptyStars_int [of r] by (simp only: h)
  have f0: "0 \<le> \<lfloor>r\<rfloor>" using assms(1) by simp
  have f10: "\<lfloor>r\<rfloor> \<le> 10" using assms(2) by (simp add: floor_le_iff)
  have 4: "length (glyph_row (nat \<lfloor>r\<rfloor>) (1 / 2 \<le> frac r)
                  (nat (max 0 (10 - \<lfloor>r\<rfloor> - (if 1 / 2 \<le> frac r then 1 else 0))))) = 10"
  proof (cases "1 / 2 \<le> frac r")
    case True
    have "nat k + 1 + nat (max 0 (10 - k - 1)) = 10" if "0 \<le> k" and "k \<le> 9" for k :: int
      using that by simp
    from this [OF f0 half_star_below_floor [OF assms(2) True]] True
    show ?thesis by (simp only: length_glyph_row if_True)
  next
    case False
    have "nat k + 0 + nat (max 0 (10 - k - 0)) = 10" if "0 \<le> k" and "k \<le> 10" for k :: int
      using that by simp
    from this [OF f0 f10] False
    show ?thesis by (simp only: length_glyph_row if_False)
  qed
  from 1 2 h 3 4 show ?thesis by blast
qed

theorem renderStars_ten_glyphs_witness:
  "(0::rat) \<le> 15 / 2 \<and> (15 / 2 :: rat) \<le> 10
   \<and> renderStars 7 =
       Inr [FaStar 0, FaStar 1, FaStar 2, FaStar 3, FaStar 4, FaStar 5, FaStar 6,
            FaRegStar 0, FaRegStar 1, FaRegStar 2]
   \<and> renderStars (15 / 2) =
       Inr [FaStar 0, FaStar 1, FaStar 2, FaStar 3, FaStar 4, FaStar 5, FaStar 6,
            FaStarHalfAlt, FaRegStar 0, FaRegStar 1]
   \<and> renderStars 10 =
       Inr [FaStar 0, FaStar 1, FaStar 2, FaStar 3, FaStar 4, FaStar 5, FaStar 6,
            FaStar 7, FaStar 8, FaStar 9]"
proof -
  have a: "\<lfloor>15 / 2 :: rat\<rfloor> = 7" "frac (15 / 2 :: rat) = 1 / 2" "frac (7 :: rat) = 0"
    "frac (10 :: rat) = 0"
    by code_simp+
  have b: "glyph_row 7 False 3 =
      [FaStar 0, FaStar 1, FaStar 2, FaStar 3, FaStar 4, FaStar 5, FaStar 6,
       FaRegStar 0, FaRegStar 1, FaRegStar 2]"
    "glyph_row 7 True 2 =
      [FaStar 0, FaStar 1, FaStar 2, FaStar 3, FaStar 4, FaStar 5, FaStar 6,
       FaStarHalfAlt, FaRegStar 0, FaRegStar 1]"
    "glyph_row 10 False 0 =
      [FaStar 0, FaStar 1, FaStar 2, FaStar 3, FaStar 4, FaStar 5, FaStar 6,
       FaStar 7, FaStar 8, FaStar 9]"
    by code_simp+
  show ?thesis
    using renderStars_ten_glyphs [of 7] renderStars_ten_glyphs [of "15 / 2"]
      renderStars_ten_glyphs [of 10]
    by (simp add: a b)
qed

text \<open>
  C8, as the specification states it, fails at 10.5: the half star is still rendered.
\<close>

theorem renderStars_above_ten_counterexample:
  "(10::rat) < 21 / 2
   \<and> hasHalfStar (21 / 2)
   \<and> renderStars (21 / 2) =
       Inr [FaStar 0, FaStar 1, FaStar 2, FaStar 3, FaStar 4, FaStar 5, FaStar 6,
            FaStar 7, FaStar 8, FaStar 9, FaStarHalfAlt]"
  by code_simp

text \<open>
  C8, amended. For a rating above 10 the empty-star count is zero and the full-star count
  is \<open>floor rating\<close>, not capped at ten, but the half star is there exactly when the
  fractional part is at least one half. Below \<open>2^32\<close> \<open>renderStars\<close> returns these full
  stars, then that half star, and no empty star; from \<open>2^32\<close> on \<^verbatim>\<open>Array(fullStars)\<close>
  raises \<^verbatim>\<open>RangeError\<close>.
\<close>

theorem renderStars_above_ten:
  assumes "10 < r"
  shows "emptyStars r = 0
         \<and> fullStars r = of_int \<lfloor>r\<rfloor> \<and> 10 \<le> \<lfloor>r\<rfloor>
         \<and> hasHalfStar r = (1 / 2 \<le> frac r)
         \<and> renderStars r =
             (if r < 2 ^ 32 then Inr (glyph_row (nat \<lfloor>r\<rfloor>) (1 / 2 \<le> frac r) 0)
              else Inl RangeError)"
proof -
  have r0: "0 \<le> r" using assms by simp
  have f: "10 \<le> \<lfloor>r\<rfloor>" using assms by (simp add: le_floor_iff)
  have "max 0 (10 - k - (if b then 1 else 0)) = 0" if "10 \<le> k" for k :: int and b
    using that by (simp add: max_def)
  from this [OF f] have e: "max 0 (10 - \<lfloor>r\<rfloor> - (if hasHalfStar r then 1 else 0)) = 0" .
  have h: "hasHalfStar r = (1 / 2 \<le> frac r)"
    using r0 by (rule hasHalfStar_nonneg)
  have 1: "emptyStars r = 0"
    using emptyStars_int [of r] by (simp only: e of_int_0)
  have 2: "fullStars r = of_int \<lfloor>r\<rfloor>"
    by (simp add: fullStars_def Math_floor_def)
  have 3: "renderStars r =
      (if r < 2 ^ 32 then Inr (glyph_row (nat \<lfloor>r\<rfloor>) (1 / 2 \<le> frac r) 0) else Inl RangeError)"
  proof (cases "r < 2 ^ 32")
    case True
    have "renderStars r = Inr (glyph_row (nat \<lfloor>r\<rfloor>) (hasHalfStar r) 0)"
      using renderStars_nonneg [OF r0 True] by (simp only: e nat_0)
    with True show ?thesis by (simp only: h if_True)
  next
    case False
    then have "2 ^ 32 \<le> r" by simp
    from renderStars_large [OF this] False show ?thesis by (simp only: if_False)
  qed
  from 1 2 f h 3 show ?thesis by blast
qed

theorem renderStars_above_ten_witness:
  "(10::rat) < 23 / 2
   \<and> emptyStars (23 / 2) = 0 \<and> fullStars (23 / 2) = 11 \<and> hasHalfStar (23 / 2)
   \<and> renderStars (23 / 2) =
       Inr [FaStar 0, FaStar 1, FaStar 2, FaStar 3, FaStar 4, FaStar 5, FaStar 6,
            FaStar 7, FaStar 8, FaStar 9, FaStar 10, FaStarHalfAlt]
   \<and> (10::rat) < 4294967296 \<and> renderStars 4294967296 = Inl RangeError"
proof -
  have a: "\<lfloor>23 / 2 :: rat\<rfloor> = 11" "frac (23 / 2 :: rat) = 1 / 2"
    by code_simp+
  have b: "glyph_row 11 True 0 =
      [FaStar 0, FaStar 1, FaStar 2, FaStar 3, FaStar 4, FaStar 5, FaStar 6,
       FaStar 7, FaStar 8, FaStar 9, FaStar 10, FaStarHalfAlt]"
    by code_simp
  show ?thesis
    using renderStars_above_ten [of "23 / 2"] renderStars_above_ten [of 4294967296]
    by (simp add: a b)
qed

text \<open>
  C10, as stated, fails at \<open>2^32\<close>: the rating is not negative, and \<^verbatim>\<open>Array(fullStars)\<close>
  still raises.
\<close>

theorem renderStars_total_counterexample:
  "(0::rat) \<le> 4294967296 \<and> renderStars 4294967296 = Inl RangeError"
  by (simp add: renderStars_def fullStars_def Math_floor_def Array_ctor_def)

text \<open>
  C10, amended. The empty-star count is never negative. For a rating in \<open>[0, 2^32)\<close> the
  full-star count is not negative either and \<open>renderStars\<close> returns a row of glyphs; for a
  negative rating the full-star count is negative and \<^verbatim>\<open>Array(fullStars)\<close> raises
  \<^verbatim>\<open>RangeError\<close>, as it does for a rating of \<open>2^32\<close> or more.
\<close>

theorem renderStars_total_range:
  "0 \<le> emptyStars r
   \<and> (0 \<le> r \<and> r < 2 ^ 32 \<longrightarrow>
        0 \<le> fullStars r
        \<and> renderStars r =
            Inr (glyph_row (nat \<lfloor>r\<rfloor>) (hasHalfStar r)
                   (nat (max 0 (10 - \<lfloor>r\<rfloor> - (if hasHalfStar r then 1 else 0))))))
   \<and> (r < 0 \<longrightarrow> fullStars r < 0 \<and> renderStars r = Inl RangeError)
   \<and> (2 ^ 32 \<le> r \<longrightarrow> renderStars r = Inl RangeError)"
proof -
  have "0 \<le> fullStars r" if "0 \<le> r"
    using that by (simp add: fullStars_def Math_floor_def)
  moreover have "fullStars r < 0" if "r < 0"
    using that by (simp add: fullStars_def Math_floor_def floor_less_iff)
  ultimately show ?thesis
    using emptyStars_nonneg [of r] renderStars_nonneg [of r] renderStars_negative [of r]
      renderStars_large [of r]
    by blast
qed

theorem renderStars_total_range_witness:
  "(0::rat) \<le> 3 \<and> (3::rat) < 2 ^ 32
   \<and> renderStars 3 =
       Inr [FaStar 0, FaStar 1, FaStar 2, FaRegStar 0, FaRegStar 1, FaRegStar 2, FaRegStar 3,
            FaRegStar 4, FaRegStar 5, FaRegStar 6]
   \<and> (- 1 / 2 :: rat) < 0 \<and> fullStars (- 1 / 2) < 0 \<and> renderStars (- 1 / 2) = Inl RangeError
   \<and> (2 ^ 32 :: rat) \<le> 5000000000 \<and> renderStars 5000000000 = Inl RangeError"
proof -
  have a: "hasHalfStar 3 = False" by code_simp
  have b: "glyph_row 3 False 7 =
      [FaStar 0, FaStar 1, FaStar 2, FaRegStar 0, FaRegStar 1, FaRegStar 2, FaRegStar 3,
       FaRegStar 4, FaRegStar 5, FaRegStar 6]"
    by code_simp
  show ?thesis
    using renderStars_total_range [of 3] renderStars_total_range [of "- 1 / 2"]
      renderStars_total_range [of 5000000000]
    by (simp add: a b)
qed

section \<open>Submitting a review: proofs\<close>

lemma reachable_message:
  "reachable s \<Longrightarrow>
     errorMessage s =
       (case rating_state s of
          None \<Rightarrow> []
        | Some r \<Rightarrow> if r < 1 \<or> 10 < r then rating_message else [])"
proof (induction rule: reachable.induct)
  case (start ls)
  show ?case by (simp add: initial_def)
next
  case (ratingChange s v)
  show ?case by (simp add: handleRatingChange_def)
next
  case (reviewSubmit s)
  then show ?case
    by (simp add: handleReviewSubmit_def Let_def split: option.splits)
next
  case (other s s')
  then show ?case by simp
qed

lemma reachable_example_page: "reachable example_page"
  unfolding example_page_def
  by (rule reachable.other [OF reachable.start [of empty_storage]]) simp_all

text \<open>
  C9. With no movie selected, or with no rating typed, \<open>handleReviewSubmit\<close> changes
  nothing: not the storage (no \<^verbatim>\<open>setItem\<close> is called), not the reviews in memory, not the
  error message, not the two inputs.
\<close>

theorem handleReviewSubmit_noop:
  assumes "currentMovie s = None \<or> rating_state s = None"
  shows "handleReviewSubmit s = s"
  using assms by (auto simp: handleReviewSubmit_def split: option.splits)

theorem handleReviewSubmit_noop_witness:
  "currentMovie ((initial empty_storage)\<lparr>rating_state := Some 7, comment_state := ''Good''\<rparr>) = None
   \<and> handleReviewSubmit ((initial empty_storage)\<lparr>rating_state := Some 7, comment_state := ''Good''\<rparr>)
       = (initial empty_storage)\<lparr>rating_state := Some 7, comment_state := ''Good''\<rparr>
   \<and> rating_state (example_page\<lparr>comment_state := ''Good'', errorMessage := ''old''\<rparr>) = None
   \<and> handleReviewSubmit (example_page\<lparr>comment_state := ''Good'', errorMessage := ''old''\<rparr>)
       = example_page\<lparr>comment_state := ''Good'', errorMessage := ''old''\<rparr>"
  using
    handleReviewSubmit_noop
      [of "(initial empty_storage)\<lparr>rating_state := Some 7, comment_state := ''Good''\<rparr>"]
    handleReviewSubmit_noop
      [of "example_page\<lparr>comment_state := ''Good'', errorMessage := ''old''\<rparr>"]
  by (simp add: initial_def example_page_def)

text \<open>
  C5. With an empty comment and a rating within \<open>[1, 10]\<close>, \<open>handleReviewSubmit\<close> changes
  nothing: the storage and its \<^verbatim>\<open>setItem\<close> calls are as before, and no error message is
  set. In a state the page can reach the message is the empty one.
\<close>

theorem handleReviewSubmit_empty_comment:
  assumes "comment_state s = []" and "rating_state s = Some r" and "1 \<le> r" and "r \<le> 10"
  shows "handleReviewSubmit s = s
         \<and> (reachable s \<longrightarrow> errorMessage (handleReviewSubmit s) = [])"
proof -
  have 1: "handleReviewSubmit s = s"
    using assms(1) by (simp add: handleReviewSubmit_def split: option.splits)
  have "errorMessage s = []" if "reachable s"
    using reachable_message [OF that] assms(2-4) by simp
  with 1 show ?thesis by simp
qed

theorem handleReviewSubmit_empty_comment_witness:
  "comment_state (handleRatingChange 7 example_page) = []
   \<and> rating_state (handleRatingChange 7 example_page) = Some 7
   \<and> (1::rat) \<le> 7 \<and> (7::rat) \<le> 10
   \<and> reachable (handleRatingChange 7 example_page)
   \<and> handleReviewSubmit (handleRatingChange 7 example_page) = handleRatingChange 7 example_page
   \<and> errorMessage (handleReviewSubmit (handleRatingChange 7 example_page)) = []"
proof -
  have r: "reachable (handleRatingChange 7 example_page)"
    by (rule reachable.ratingChange [OF reachable_example_page])
  have c: "comment_state (handleRatingChange 7 example_page) = []"
    "rating_state (handleRatingChange 7 example_page) = Some 7"
    by (simp_all add: handleRatingChange_def example_page_def initial_def)
  have "(1::rat) \<le> 7" and "(7::rat) \<le> 10"
    by simp_all
  from handleReviewSubmit_empty_comment [OF c this] r c this show ?thesis
    by blast
qed

text \<open>
  C4. With a rating outside \<open>[1, 10]\<close>, \<open>handleReviewSubmit\<close> saves nothing: the storage
  and its \<^verbatim>\<open>setItem\<close> calls, the reviews in memory and the two inputs are as before. With
  a movie selected and a comment typed it sets the message \<^verbatim>\<open>Rating must be between 1 and 10.\<close>;
  in every state the page can reach the message is shown after the submission.
\<close>

theorem handleReviewSubmit_out_of_range:
  assumes "rating_state s = Some r" and "r < 1 \<or> 10 < r"
  shows "localStorage (handleReviewSubmit s) = localStorage s
         \<and> reviews (handleReviewSubmit s) = reviews s
         \<and> rating_state (handleReviewSubmit s) = Some r
         \<and> comment_state (handleReviewSubmit s) = comment_state s
         \<and> (currentMovie s \<noteq> None \<and> comment_state s \<noteq> [] \<longrightarrow>
               handleReviewSubmit s = s\<lparr>errorMessage := rating_message\<rparr>)
         \<and> (reachable s \<longrightarrow> errorMessage (handleReviewSubmit s) = rating_message)"
proof -
  have 1: "handleReviewSubmit s = s \<or> handleReviewSubmit s = s\<lparr>errorMessage := rating_message\<rparr>"
    using assms by (auto simp: handleReviewSubmit_def split: option.splits)
  have 2: "handleReviewSubmit s = s\<lparr>errorMessage := rating_message\<rparr>"
    if "currentMovie s \<noteq> None \<and> comment_state s \<noteq> []"
    using assms that by (auto simp: handleReviewSubmit_def split: option.splits)
  have 3: "errorMessage (handleReviewSubmit s) = rating_message" if "reachable s"
  proof -
    from reachable_message [OF that] assms have "errorMessage s = rating_message"
      by auto
    with 1 show ?thesis by auto
  qed
  from 1 assms(1) have "localStorage (handleReviewSubmit s) = localStorage s"
    "reviews (handleReviewSubmit s) = reviews s"
    "rating_state (handleReviewSubmit s) = Some r"
    "comment_state (handleReviewSubmit s) = comment_state s"
    by auto
  with 2 3 show ?thesis by blast
qed

theorem handleReviewSubmit_out_of_range_witness:
  "rating_state (example_page\<lparr>rating_state := Some 0, comment_state := ''Bad''\<rparr>) = Some 0
   \<and> (0::rat) < 1
   \<and> handleReviewSubmit (example_page\<lparr>rating_state := Some 0, comment_state := ''Bad''\<rparr>)
       = example_page\<lparr>rating_state := Some 0, comment_state := ''Bad'',
           errorMessage := ''Rating must be between 1 and 10.''\<rparr>
   \<and> localStorage (handleReviewSubmit (example_page\<lparr>rating_state := Some 0, comment_state := ''Bad''\<rparr>))
       = empty_storage
   \<and> rating_state (handleRatingChange 11 example_page) = Some 11
   \<and> (10::rat) < 11
   \<and> reachable (handleRatingChange 11 example_page)
   \<and> errorMessage (handleReviewSubmit (handleRatingChange 11 example_page))
       = ''Rating must be between 1 and 10.''
   \<and> localStorage (handleReviewSubmit (handleRatingChange 11 example_page)) = empty_storage"
proof -
  have r: "reachable (handleRatingChange 11 example_page)"
    by (rule reachable.ratingChange [OF reachable_example_page])
  have a: "rating_state (example_page\<lparr>rating_state := Some 0, comment_state := ''Bad''\<rparr>) = Some 0"
    "rating_state (handleRatingChange 11 example_page) = Some 11"
    by (simp_all add: handleRatingChange_def)
  from handleReviewSubmit_out_of_range [OF a(1)] handleReviewSubmit_out_of_range [OF a(2)] r
  show ?thesis
    by (simp add: handleRatingChange_def example_page_def initial_def rating_message_def)
qed

section \<open>Sorting the reviews: proofs\<close>

lemma insert_sorted_insort_key:
  assumes "\<And>x y. (cmp x y \<le> 0) = (f x \<le> f y)"
  shows "insert_sorted cmp x ys = insort_key f x ys"
  by (induction ys) (simp_all add: assms)

lemma stable_sort_sort_key:
  assumes "\<And>x y. (cmp x y \<le> 0) = (f x \<le> f y)"
  shows "stable_sort cmp xs = sort_key f xs"
proof -
  have "insert_sorted cmp = insort_key f"
    by (intro ext) (rule insert_sorted_insort_key [OF assms])
  then show ?thesis
    by (simp add: stable_sort_def sort_key_def)
qed

lemma insort_key_last:
  "\<forall>y\<in>set ys. f y < f x \<Longrightarrow> insort_key f x ys = ys @ [x]"
  by (induction ys) auto

lemma sort_key_decreasing:
  "sorted_wrt (\<lambda>x y. f y < f x) xs \<Longrightarrow> sort_key f xs = rev xs"
proof (induction xs)
  case Nil
  show ?case by simp
next
  case (Cons x xs)
  then have "sort_key f xs = rev xs" and "\<forall>y\<in>set (rev xs). f y < f x"
    by simp_all
  then show ?case
    by (simp add: insort_key_last)
qed

lemma indexOf_from_nth:
  "distinct (map fst xs) \<Longrightarrow> j < length xs \<Longrightarrow> indexOf_from i xs (xs ! j) = of_nat (i + j)"
proof (induction xs arbitrary: i j)
  case Nil
  then show ?case by simp
next
  case (Cons x xs)
  show ?case
  proof (cases j)
    case 0
    then show ?thesis by simp
  next
    case (Suc k)
    with Cons.prems have k: "k < length xs" and d: "distinct (map fst xs)"
      and "fst x \<notin> fst ` set xs"
      by simp_all
    then have "fst x \<noteq> fst (xs ! k)"
      by (metis image_eqI nth_mem)
    with Cons.IH [OF d k, of "Suc i"] Suc show ?thesis
      by simp
  qed
qed

lemma indexOf_decreasing:
  assumes "distinct (map fst xs)"
  shows "sorted_wrt (\<lambda>x y. - Array_indexOf xs y < - Array_indexOf xs x) xs"
  unfolding sorted_wrt_iff_nth_less Array_indexOf_def
  by (simp add: indexOf_from_nth [OF assms])

lemma stable_sort_newest:
  assumes "distinct (map fst xs)"
  shows "stable_sort (\<lambda>a b. Array_indexOf xs b - Array_indexOf xs a) xs = rev xs"
proof -
  have "stable_sort (\<lambda>a b. Array_indexOf xs b - Array_indexOf xs a) xs =
        sort_key (\<lambda>x. - Array_indexOf xs x) xs"
    by (rule stable_sort_sort_key) auto
  also have "\<dots> = rev xs"
    by (rule sort_key_decreasing) (rule indexOf_decreasing [OF assms])
  finally show ?thesis .
qed

lemma stable_sort_highest:
  "stable_sort (\<lambda>a b. rating (snd b) - rating (snd a)) xs = sort_key (\<lambda>x. - rating (snd x)) xs"
  by (rule stable_sort_sort_key) auto

lemma stable_sort_lowest:
  "stable_sort (\<lambda>a b. rating (snd a) - rating (snd b)) xs = sort_key (\<lambda>x. rating (snd x)) xs"
  by (rule stable_sort_sort_key) auto

lemma sortedReviews_eq:
  assumes "arrays h a = Some xs" and "arrays h (fresh h) = None" and "distinct (map fst xs)"
  shows "sortedReviews so a h =
           Some (fresh h, h\<lparr>arrays := (arrays h)(fresh h \<mapsto> ordered so xs), fresh := Suc (fresh h)\<rparr>)"
proof -
  from assms(1,2) have ne: "a \<noteq> fresh h" by auto
  show ?thesis
  proof (cases so)
    case Newest
    with assms(1) ne stable_sort_newest [OF assms(3)] show ?thesis
      by (simp add: sortedReviews_def spread_def Array_sort_def ordered_def)
  next
    case Highest
    with assms(1) ne stable_sort_highest [of xs] show ?thesis
      by (simp add: sortedReviews_def spread_def Array_sort_def ordered_def)
  next
    case Lowest
    with assms(1) ne stable_sort_lowest [of xs] show ?thesis
      by (simp add: sortedReviews_def spread_def Array_sort_def ordered_def)
  qed
qed

lemma ordered_highest:
  "sorted_wrt (\<lambda>x y. rating (snd y) \<le> rating (snd x)) (ordered Highest xs)
   \<and> mset (ordered Highest xs) = mset xs"
proof -
  have "sorted (map (\<lambda>x. - rating (snd x)) (sort_key (\<lambda>x. - rating (snd x)) xs))"
    by (rule sorted_sort_key)
  then show ?thesis
    by (simp add: ordered_def sorted_map)
qed

lemma ordered_lowest:
  "sorted_wrt (\<lambda>x y. rating (snd x) \<le> rating (snd y)) (ordered Lowest xs)
   \<and> mset (ordered Lowest xs) = mset xs"
proof -
  have "sorted (map (\<lambda>x. rating (snd x)) (sort_key (\<lambda>x. rating (snd x)) xs))"
    by (rule sorted_sort_key)
  then show ?thesis
    by (simp add: ordered_def sorted_map)
qed

lemma ordered_stable:
  "filter (\<lambda>x. rating (snd x) = k) (ordered Highest xs) = filter (\<lambda>x. rating (snd x) = k) xs
   \<and> filter (\<lambda>x. rating (snd x) = k) (ordered Lowest xs) = filter (\<lambda>x. rating (snd x) = k) xs"
proof -
  have "filter (\<lambda>x. - rating (snd x) = - k) (sort_key (\<lambda>x. - rating (snd x)) xs)
          = filter (\<lambda>x. - rating (snd x) = - k) xs"
    by (rule sort_key_stable)
  moreover have "filter (\<lambda>x. rating (snd x) = k) (sort_key (\<lambda>x. rating (snd x)) xs)
          = filter (\<lambda>x. rating (snd x) = k) xs"
    by (rule sort_key_stable)
  ultimately show ?thesis
    by (simp add: ordered_def)
qed

text \<open>
  C6. \<open>sortedReviews\<close> sorts a fresh copy: it returns a new array and leaves every array
  that was there, \<open>reviews\<close> among them, as it was. The copy holds the reviews in reverse
  insertion order under \<open>newest\<close>, in descending order of rating under \<open>highest\<close> and in
  ascending order of rating under \<open>lowest\<close>; reviews of equal rating keep their order.
  The reviews of the array are distinct objects.
\<close>

theorem sortedReviews_sorted_copy:
  assumes "arrays h a = Some xs" and "arrays h (fresh h) = None" and "distinct (map fst xs)"
  shows "sortedReviews so a h =
           Some (fresh h, h\<lparr>arrays := (arrays h)(fresh h \<mapsto> ordered so xs), fresh := Suc (fresh h)\<rparr>)
         \<and> (\<forall>c h'. sortedReviews so a h = Some (c, h') \<longrightarrow>
               c \<noteq> a \<and> arrays h' a = Some xs \<and> arrays h' c = Some (ordered so xs)
               \<and> (\<forall>b. b \<noteq> c \<longrightarrow> arrays h' b = arrays h b))
         \<and> ordered Newest xs = rev xs
         \<and> sorted_wrt (\<lambda>x y. rating (snd y) \<le> rating (snd x)) (ordered Highest xs)
         \<and> mset (ordered Highest xs) = mset xs
         \<and> sorted_wrt (\<lambda>x y. rating (snd x) \<le> rating (snd y)) (ordered Lowest xs)
         \<and> mset (ordered Lowest xs) = mset xs
         \<and> (\<forall>k. filter (\<lambda>x. rating (snd x) = k) (ordered Highest xs)
                  = filter (\<lambda>x. rating (snd x) = k) xs
                \<and> filter (\<lambda>x. rating (snd x) = k) (ordered Lowest xs)
                  = filter (\<lambda>x. rating (snd x) = k) xs)"
proof -
  from assms(1,2) have ne: "fresh h \<noteq> a" by auto
  note eq = sortedReviews_eq [OF assms, of so]
  have "c \<noteq> a \<and> arrays h' a = Some xs \<and> arrays h' c = Some (ordered so xs)
        \<and> (\<forall>b. b \<noteq> c \<longrightarrow> arrays h' b = arrays h b)"
    if "sortedReviews so a h = Some (c, h')" for c h'
    using that ne assms(1) unfolding eq by auto
  moreover have "ordered Newest xs = rev xs"
    by (simp add: ordered_def)
  ultimately show ?thesis
    using eq ordered_highest [of xs] ordered_lowest [of xs] ordered_stable [of _ xs] by blast
qed

theorem sortedReviews_sorted_copy_witness:
  "arrays example_heap 0 = Some example_reviews
   \<and> arrays example_heap (fresh example_heap) = None
   \<and> distinct (map fst example_reviews)
   \<and> sortedReviews Highest 0 example_heap =
       Some (1, \<lparr>arrays = [0 \<mapsto> example_reviews,
                            1 \<mapsto> [(1, \<lparr>rating = 9, comment = ''B''\<rparr>),
                                   (0, \<lparr>rating = 3, comment = ''A''\<rparr>),
                                   (2, \<lparr>rating = 1, comment = ''C''\<rparr>)]],
                 fresh = 2\<rparr>)
   \<and> sortedReviews Lowest 0 example_heap =
       Some (1, \<lparr>arrays = [0 \<mapsto> example_reviews,
                            1 \<mapsto> [(2, \<lparr>rating = 1, comment = ''C''\<rparr>),
                                   (0, \<lparr>rating = 3, comment = ''A''\<rparr>),
                                   (1, \<lparr>rating = 9, comment = ''B''\<rparr>)]],
                 fresh = 2\<rparr>)
   \<and> sortedReviews Newest 0 example_heap =
       Some (1, \<lparr>arrays = [0 \<mapsto> example_reviews,
                            1 \<mapsto> [(2, \<lparr>rating = 1, comment = ''C''\<rparr>),
                                   (1, \<lparr>rating = 9, comment = ''B''\<rparr>),
                                   (0, \<lparr>rating = 3, comment = ''A''\<rparr>)]],
                 fresh = 2\<rparr>)"
proof -
  have a: "arrays example_heap 0 = Some example_reviews"
    "arrays example_heap (fresh example_heap) = None"
    "distinct (map fst example_reviews)"
    by (simp_all add: example_heap_def example_reviews_def)
  have o: "ordered Highest example_reviews =
        [(1, \<lparr>rating = 9, comment = ''B''\<rparr>), (0, \<lparr>rating = 3, comment = ''A''\<rparr>),
         (2, \<lparr>rating = 1, comment = ''C''\<rparr>)]"
    "ordered Lowest example_reviews =
        [(2, \<lparr>rating = 1, comment = ''C''\<rparr>), (0, \<lparr>rating = 3, comment = ''A''\<rparr>),
         (1, \<lparr>rating = 9, comment = ''B''\<rparr>)]"
    "ordered Newest example_reviews =
        [(2, \<lparr>rating = 1, comment = ''C''\<rparr>), (1, \<lparr>rating = 9, comment = ''B''\<rparr>),
         (0, \<lparr>rating = 3, comment = ''A''\<rparr>)]"
    by (simp_all add: ordered_def example_reviews_def)
  have h: "example_heap\<lparr>arrays := (arrays example_heap)(fresh example_heap \<mapsto> ys),
             fresh := Suc (fresh example_heap)\<rparr>
           = \<lparr>arrays = [0 \<mapsto> example_reviews, 1 \<mapsto> ys], fresh = 2\<rparr>" for ys
    by (simp add: example_heap_def)
  from sortedReviews_sorted_copy [OF a, of Highest] sortedReviews_sorted_copy [OF a, of Lowest]
    sortedReviews_sorted_copy [OF a, of Newest]
  have "sortedReviews Highest 0 example_heap =
          Some (1, \<lparr>arrays = [0 \<mapsto> example_reviews, 1 \<mapsto> ordered Highest example_reviews], fresh = 2\<rparr>)"
    "sortedReviews Lowest 0 example_heap =
          Some (1, \<lparr>arrays = [0 \<mapsto> example_reviews, 1 \<mapsto> ordered Lowest example_reviews], fresh = 2\<rparr>)"
    "sortedReviews Newest 0 example_heap =
          Some (1, \<lparr>arrays = [0 \<mapsto> example_reviews, 1 \<mapsto> ordered Newest example_reviews], fresh = 2\<rparr>)"
    unfolding h by (simp_all add: example_heap_def)
  with a show ?thesis
    unfolding o by blast
qed

section \<open>Numbers and text: proofs\<close>

lemma of_char_digit_char: "d < 10 \<Longrightarrow> (of_char (digit_char d) :: nat) = 48 + d"
  by (simp add: digit_char_def)

lemma is_digit_digit_char: "d < 10 \<Longrightarrow> is_digit (digit_char d)"
  by (simp add: is_digit_def of_char_digit_char)

lemma digit_val_digit_char: "d < 10 \<Longrightarrow> digit_val (digit_char d) = d"
  by (simp add: digit_val_def of_char_digit_char)

lemma digit_char_zero: "digit_char 0 = CHR ''0''"
  by code_simp

lemma digit_char_eq_zero: "d < 10 \<Longrightarrow> (digit_char d = CHR ''0'') = (d = 0)"
proof -
  assume d: "d < 10"
  have "(digit_char d = CHR ''0'') = ((of_char (digit_char d) :: nat) = of_char (CHR ''0''))"
    by (simp only: of_char_eq_iff)
  also have "\<dots> = (d = 0)"
    using d by (simp add: of_char_digit_char)
  finally show ?thesis .
qed

lemma nat_digits_digits: "list_all is_digit (nat_digits n)"
proof (induction n rule: nat_digits.induct)
  case (1 n)
  show ?case
  proof (cases "n < 10")
    case True
    then show ?thesis by (simp add: nat_digits.simps [of n] is_digit_digit_char)
  next
    case False
    with 1 show ?thesis
      by (simp add: nat_digits.simps [of n] is_digit_digit_char)
  qed
qed

lemma nat_digits_nonempty: "nat_digits n \<noteq> []"
  by (subst nat_digits.simps) simp

lemma digits_val_snoc: "digits_val (ds @ [c]) = 10 * digits_val ds + digit_val c"
  by (simp add: digits_val_def)

lemma digits_val_nat_digits: "digits_val (nat_digits n) = n"
proof (induction n rule: nat_digits.induct)
  case (1 n)
  show ?case
  proof (cases "n < 10")
    case True
    then show ?thesis
      by (simp add: nat_digits.simps [of n] digits_val_def digit_val_digit_char)
  next
    case False
    with 1 have "digits_val (nat_digits (n div 10)) = n div 10" by simp
    with False show ?thesis
      by (simp add: nat_digits.simps [of n] digits_val_snoc digit_val_digit_char)
  qed
qed

lemma hd_nat_digits: "0 < n \<Longrightarrow> hd (nat_digits n) \<noteq> CHR ''0''"
proof (induction n rule: nat_digits.induct)
  case (1 n)
  show ?case
  proof (cases "n < 10")
    case True
    with "1.prems" show ?thesis
      by (simp add: nat_digits.simps [of n] digit_char_eq_zero)
  next
    case False
    then have "0 < n div 10" by simp
    with 1 False have "hd (nat_digits (n div 10)) \<noteq> CHR ''0''" by simp
    with False show ?thesis
      by (simp add: nat_digits.simps [of n] nat_digits_nonempty)
  qed
qed

lemma nat_digits_zero: "nat_digits 0 = ''0''"
  by (simp add: nat_digits.simps [of 0] digit_char_zero)

lemma takeWhile_digits:
  "list_all is_digit ds \<Longrightarrow> ends_number rest \<Longrightarrow> takeWhile is_digit (ds @ rest) = ds"
  by (cases rest) (auto simp: ends_number_def list_all_iff takeWhile_append2 takeWhile_eq_all_conv)

lemma dropWhile_digits:
  "list_all is_digit ds \<Longrightarrow> ends_number rest \<Longrightarrow> dropWhile is_digit (ds @ rest) = rest"
  by (cases rest) (auto simp: ends_number_def list_all_iff dropWhile_append2)

lemma takeWhile_digits_point:
  "list_all is_digit ds \<Longrightarrow> takeWhile is_digit (ds @ CHR ''.'' # rest) = ds"
  by (simp add: list_all_iff takeWhile_append2 is_digit_def)

lemma dropWhile_digits_point:
  "list_all is_digit ds \<Longrightarrow> dropWhile is_digit (ds @ CHR ''.'' # rest) = CHR ''.'' # rest"
  by (simp add: list_all_iff dropWhile_append2 is_digit_def)

lemma parse_int_part_nat_digits:
  assumes "ends_number rest \<or> (\<exists>r. rest = CHR ''.'' # r)"
  shows "parse_int_part (nat_digits n @ rest) = Some (n, rest)"
proof (cases "n = 0")
  case True
  then show ?thesis
    by (simp add: nat_digits_zero parse_int_part_def)
next
  case False
  obtain c cs where cs: "nat_digits n = c # cs"
    using nat_digits_nonempty [of n] by (cases "nat_digits n") auto
  with hd_nat_digits [of n] False have c0: "c \<noteq> CHR ''0''" by simp
  from cs nat_digits_digits [of n] have cd: "is_digit c" by simp
  have t: "takeWhile is_digit (nat_digits n @ rest) = nat_digits n"
    and d: "dropWhile is_digit (nat_digits n @ rest) = rest"
    using assms nat_digits_digits [of n]
    by (auto simp: takeWhile_digits dropWhile_digits takeWhile_digits_point dropWhile_digits_point)
  have "parse_int_part (nat_digits n @ rest) =
          Some (digits_val (takeWhile is_digit (nat_digits n @ rest)),
                dropWhile is_digit (nat_digits n @ rest))"
    using c0 cd by (simp add: parse_int_part_def cs)
  then show ?thesis
    by (simp only: t d digits_val_nat_digits)
qed

subsection \<open>The digits of the fraction\<close>

lemma frac_digits_digits: "0 \<le> f \<Longrightarrow> f < 1 \<Longrightarrow> list_all is_digit (frac_digits n f)"
proof (induction n arbitrary: f)
  case 0
  show ?case by simp
next
  case (Suc n)
  let ?d = "\<lfloor>10 * f\<rfloor>"
  have d0: "0 \<le> ?d" using Suc.prems by simp
  have d9: "?d < 10" using Suc.prems by (simp add: floor_less_iff)
  have "nat ?d < 10" using d0 d9 by linarith
  then have 1: "is_digit (digit_char (nat ?d))" by (rule is_digit_digit_char)
  have "0 \<le> 10 * f - of_int ?d" and "10 * f - of_int ?d < 1"
    by linarith+
  then have "list_all is_digit (frac_digits n (10 * f - of_int ?d))"
    by (rule Suc.IH)
  with 1 show ?case by simp
qed

lemma frac_val_frac_digits:
  "0 \<le> f \<Longrightarrow> f < 1 \<Longrightarrow> f * 10 ^ n \<in> \<int> \<Longrightarrow> frac_val (frac_digits n f) = f"
proof (induction n arbitrary: f)
  case 0
  then have "f \<in> \<int>" by simp
  then obtain k :: int where k: "f = of_int k" by (auto elim: Ints_cases)
  with "0.prems" have "0 \<le> k" and "k < 1" by simp_all
  then have "k = 0" by simp
  with k show ?case by (simp add: frac_val_def)
next
  case (Suc n)
  show ?case
  proof (cases "f = 0")
    case True
    then show ?thesis by (simp add: frac_val_def)
  next
    case False
    let ?d = "\<lfloor>10 * f\<rfloor>"
    let ?g = "10 * f - of_int ?d"
    have d0: "0 \<le> ?d" using Suc.prems by simp
    have d9: "?d < 10" using Suc.prems by (simp add: floor_less_iff)
    have dn: "nat ?d < 10" using d0 d9 by linarith
    have g0: "0 \<le> ?g" and g1: "?g < 1" by linarith+
    have "?g * 10 ^ n = f * 10 ^ Suc n - of_int (?d * 10 ^ n)"
      by (simp add: algebra_simps)
    moreover have "f * 10 ^ Suc n - of_int (?d * 10 ^ n) \<in> \<int>"
      using Suc.prems(3) by (intro Ints_diff Ints_of_int)
    ultimately have "?g * 10 ^ n \<in> \<int>" by simp
    with g0 g1 have ih: "frac_val (frac_digits n ?g) = ?g" by (rule Suc.IH)
    have "frac_val (frac_digits (Suc n) f) =
            (of_nat (digit_val (digit_char (nat ?d))) + frac_val (frac_digits n ?g)) / 10"
      using False by (simp add: frac_val_def)
    also have "\<dots> = (of_int ?d + ?g) / 10"
      using d0 by (simp add: ih digit_val_digit_char [OF dn])
    also have "\<dots> = f" by simp
    finally show ?thesis .
  qed
qed

lemma frac_digits_nonempty: "f \<noteq> 0 \<Longrightarrow> 0 < n \<Longrightarrow> frac_digits n f \<noteq> []"
  by (cases n) simp_all

subsection \<open>Enough digits\<close>

lemma dvd_power_ten_self:
  fixes d :: nat
  assumes "0 < d" and "d dvd 10 ^ k"
  shows "d dvd 10 ^ d"
  using assms
proof (induction d rule: less_induct)
  case (less d)
  show ?case
  proof (cases "d = 1")
    case True
    then show ?thesis by simp
  next
    case False
    define g where "g = gcd d 10"
    have "g \<noteq> 1"
    proof
      assume "g = 1"
      then have "coprime d 10"
        unfolding g_def by (simp only: coprime_iff_gcd_eq_1)
      then have "coprime d (10 ^ k)"
        by simp
      from coprime_common_divisor [OF this dvd_refl less.prems(2)] have "d = 1"
        by simp
      with False show False by simp
    qed
    have g_dvd: "g dvd d" "g dvd 10" by (simp_all add: g_def)
    have "0 < g" using less.prems(1) by (simp add: g_def)
    with \<open>g \<noteq> 1\<close> have "1 < g" by simp
    obtain d' where d': "d = g * d'" using g_dvd(1) by (auto elim: dvdE)
    with less.prems(1) have "0 < d'" by (cases d') simp_all
    from d' \<open>1 < g\<close> \<open>0 < d'\<close> have "d' < d" by simp
    have "d' dvd 10 ^ k" using less.prems(2) d' by (metis dvd_mult_right)
    from less.IH [OF \<open>d' < d\<close> \<open>0 < d'\<close> this] have "d' dvd 10 ^ d'" .
    with g_dvd(2) have "g * d' dvd 10 * 10 ^ d'" by (rule mult_dvd_mono)
    then have "d dvd 10 ^ Suc d'" by (simp add: d')
    moreover have "(10::nat) ^ Suc d' dvd 10 ^ d"
      using \<open>d' < d\<close> by (intro le_imp_power_dvd) simp
    ultimately show ?thesis by (rule dvd_trans)
  qed
qed

lemma decimal_denominator:
  fixes a :: rat
  assumes "a * 10 ^ k \<in> \<int>"
  shows "a * 10 ^ nat (snd (quotient_of a)) \<in> \<int>"
proof -
  obtain p q where pq: "quotient_of a = (p, q)" by (cases "quotient_of a")
  then have q0: "0 < q" and cop: "coprime p q" and a: "a = of_int p / of_int q"
    by (simp_all add: quotient_of_denom_pos quotient_of_coprime quotient_of_div)
  from assms obtain n :: int where "a * 10 ^ k = of_int n"
    by (auto elim: Ints_cases)
  moreover have "of_int p = a * of_int q" using a q0 by simp
  ultimately have "(of_int p :: rat) * 10 ^ k = of_int n * of_int q"
    by (simp add: mult_ac)
  then have "(of_int (p * 10 ^ k) :: rat) = of_int (n * q)"
    by simp
  then have "p * 10 ^ k = n * q" by (simp only: of_int_eq_iff)
  then have "q dvd p * 10 ^ k" by simp
  with cop have "q dvd 10 ^ k"
    by (simp add: coprime_dvd_mult_right_iff coprime_commute)
  then have "int (nat q) dvd int (10 ^ k)" using q0 by simp
  then have "nat q dvd 10 ^ k" by (simp only: int_dvd_int_iff)
  with q0 have "nat q dvd 10 ^ nat q" by (intro dvd_power_ten_self [of "nat q" k]) simp_all
  then obtain t :: nat where t: "10 ^ nat q = nat q * t" by (auto elim: dvdE)
  then have "(10::rat) ^ nat q = of_nat (nat q * t)"
    by (metis of_nat_numeral of_nat_power)
  also have "\<dots> = of_int q * of_nat t" using q0 by simp
  finally have "a * 10 ^ nat q = of_int p * of_nat t"
    using a q0 by simp
  also have "\<dots> \<in> \<int>" by simp
  finally show ?thesis by (simp add: pq)
qed

lemma finite_decimal_iff: "finite_decimal x = (\<exists>k::nat. x * 10 ^ k \<in> \<int>)"
proof
  assume "finite_decimal x"
  then have "x * 10 ^ nat (snd (quotient_of x)) \<in> \<int>"
    by (simp add: finite_decimal_def frac_eq_0_iff)
  then show "\<exists>k::nat. x * 10 ^ k \<in> \<int>" ..
next
  assume "\<exists>k::nat. x * 10 ^ k \<in> \<int>"
  then obtain k :: nat where "x * 10 ^ k \<in> \<int>" ..
  then have "x * 10 ^ nat (snd (quotient_of x)) \<in> \<int>"
    by (rule decimal_denominator)
  then show "finite_decimal x"
    by (simp add: finite_decimal_def frac_eq_0_iff)
qed

lemma finite_decimal_denominator:
  "finite_decimal a \<Longrightarrow> a * 10 ^ nat (snd (quotient_of a)) \<in> \<int>"
  by (simp add: finite_decimal_def frac_eq_0_iff)

lemma frac_part_scaled:
  fixes a :: rat
  assumes "a * 10 ^ n \<in> \<int>"
  shows "(a - of_int \<lfloor>a\<rfloor>) * 10 ^ n \<in> \<int>"
proof -
  have "(a - of_int \<lfloor>a\<rfloor>) * 10 ^ n = a * 10 ^ n - of_int (\<lfloor>a\<rfloor> * 10 ^ n)"
    by (simp add: algebra_simps)
  also have "\<dots> \<in> \<int>"
    using assms by (intro Ints_diff Ints_of_int)
  finally show ?thesis .
qed

lemma parse_frac_part_none:
  "ends_number rest \<Longrightarrow> parse_frac_part rest = Some (0, rest)"
  by (cases rest) (simp_all add: parse_frac_part_def ends_number_def)

lemma parse_frac_part_digits:
  assumes "list_all is_digit ds" and "ds \<noteq> []" and "ends_number rest"
  shows "parse_frac_part (CHR ''.'' # ds @ rest) = Some (frac_val ds, rest)"
  using assms by (simp add: parse_frac_part_def takeWhile_digits dropWhile_digits)

lemma parse_exp_part_none:
  "ends_number rest \<Longrightarrow> parse_exp_part rest = Some (0, rest)"
  by (cases rest) (simp_all add: parse_exp_part_def ends_number_def)

lemma is_digit_not_minus: "is_digit c \<Longrightarrow> c \<noteq> CHR ''-''"
  by (auto simp: is_digit_def)

lemma parse_number_positive:
  assumes "s = c # cs" and "c \<noteq> CHR ''-''"
    and "parse_int_part s = Some (i, s2)"
    and "parse_frac_part s2 = Some (f, s3)"
    and "parse_exp_part s3 = Some (e, s4)"
  shows "parse_number s = Some ((of_nat i + f) * pow10 e, s4)"
  using assms(2-) unfolding parse_number_def assms(1) by simp

lemma parse_number_negative:
  assumes "parse_int_part s = Some (i, s2)"
    and "parse_frac_part s2 = Some (f, s3)"
    and "parse_exp_part s3 = Some (e, s4)"
  shows "parse_number (CHR ''-'' # s) = Some (- (of_nat i + f) * pow10 e, s4)"
  using assms unfolding parse_number_def by simp

lemma parse_number_unsigned:
  assumes "0 \<le> a" and "finite_decimal a" and "ends_number rest"
  shows "parse_number
           (nat_digits (nat \<lfloor>a\<rfloor>)
            @ (if a - of_int \<lfloor>a\<rfloor> = 0 then []
               else ''.'' @ frac_digits (nat (snd (quotient_of a))) (a - of_int \<lfloor>a\<rfloor>))
            @ rest) = Some (a, rest)"
proof -
  let ?i = "nat \<lfloor>a\<rfloor>"
  let ?f = "a - of_int \<lfloor>a\<rfloor>"
  let ?n = "nat (snd (quotient_of a))"
  let ?fd = "frac_digits ?n ?f"
  let ?tail = "(if ?f = 0 then [] else ''.'' @ ?fd) @ rest"
  have f0: "0 \<le> ?f" and f1: "?f < 1" by linarith+
  have n0: "0 < ?n"
    using quotient_of_denom_pos [of a] by (cases "quotient_of a") simp
  obtain c cs where cs: "nat_digits ?i = c # cs"
    using nat_digits_nonempty [of ?i] by (cases "nat_digits ?i") auto
  with nat_digits_digits [of ?i] have "is_digit c" by simp
  then have cm: "c \<noteq> CHR ''-''" by (rule is_digit_not_minus)
  have tail: "ends_number ?tail \<or> (\<exists>r. ?tail = CHR ''.'' # r)"
    using assms(3) by simp
  have 1: "parse_int_part (nat_digits ?i @ ?tail) = Some (?i, ?tail)"
    using tail by (rule parse_int_part_nat_digits)
  have 2: "parse_frac_part ?tail = Some (?f, rest)"
  proof (cases "?f = 0")
    case True
    with assms(3) show ?thesis by (simp add: parse_frac_part_none)
  next
    case False
    have "?f * 10 ^ ?n \<in> \<int>"
      using finite_decimal_denominator [OF assms(2)] by (rule frac_part_scaled)
    with f0 f1 have "frac_val ?fd = ?f" by (rule frac_val_frac_digits)
    moreover have "list_all is_digit ?fd" using f0 f1 by (rule frac_digits_digits)
    moreover have "?fd \<noteq> []" using False n0 by (rule frac_digits_nonempty)
    ultimately show ?thesis
      using False assms(3) parse_frac_part_digits [of ?fd rest] by simp
  qed
  have 3: "parse_exp_part rest = Some (0, rest)"
    using assms(3) by (rule parse_exp_part_none)
  have v: "of_nat ?i + ?f = a" using assms(1) by simp
  have "nat_digits ?i @ ?tail = c # (cs @ ?tail)" by (simp add: cs)
  from parse_number_positive [OF this cm 1 2 3]
  show ?thesis
    by (simp only: v) (simp add: pow10_def)
qed

lemma parse_number_signed:
  assumes "a < 0" and "finite_decimal a" and "ends_number rest"
  shows "parse_number
           (CHR ''-'' # nat_digits (nat \<lfloor>- a\<rfloor>)
            @ (if - a - of_int \<lfloor>- a\<rfloor> = 0 then []
               else ''.'' @ frac_digits (nat (snd (quotient_of (- a)))) (- a - of_int \<lfloor>- a\<rfloor>))
            @ rest) = Some (a, rest)"
proof -
  let ?b = "- a"
  let ?i = "nat \<lfloor>?b\<rfloor>"
  let ?f = "?b - of_int \<lfloor>?b\<rfloor>"
  let ?n = "nat (snd (quotient_of ?b))"
  let ?fd = "frac_digits ?n ?f"
  let ?tail = "(if ?f = 0 then [] else ''.'' @ ?fd) @ rest"
  have b0: "0 \<le> ?b" using assms(1) by simp
  have bd: "finite_decimal ?b"
    using assms(2) unfolding finite_decimal_iff by (metis Ints_minus mult_minus_left)
  have f0: "0 \<le> ?f" and f1: "?f < 1" by linarith+
  have n0: "0 < ?n"
    using quotient_of_denom_pos [of ?b] by (cases "quotient_of ?b") simp
  have tail: "ends_number ?tail \<or> (\<exists>r. ?tail = CHR ''.'' # r)"
    using assms(3) by simp
  have 1: "parse_int_part (nat_digits ?i @ ?tail) = Some (?i, ?tail)"
    using tail by (rule parse_int_part_nat_digits)
  have 2: "parse_frac_part ?tail = Some (?f, rest)"
  proof (cases "?f = 0")
    case True
    with assms(3) show ?thesis by (simp add: parse_frac_part_none)
  next
    case False
    have "?f * 10 ^ ?n \<in> \<int>"
      using finite_decimal_denominator [OF bd] by (rule frac_part_scaled)
    with f0 f1 have "frac_val ?fd = ?f" by (rule frac_val_frac_digits)
    moreover have "list_all is_digit ?fd" using f0 f1 by (rule frac_digits_digits)
    moreover have "?fd \<noteq> []" using False n0 by (rule frac_digits_nonempty)
    ultimately show ?thesis
      using False assms(3) parse_frac_part_digits [of ?fd rest] by simp
  qed
  have 3: "parse_exp_part rest = Some (0, rest)"
    using assms(3) by (rule parse_exp_part_none)
  have v: "of_nat ?i + ?f = ?b" using b0 by simp
  from parse_number_negative [OF 1 2 3]
  show ?thesis
    by (simp only: v) (simp add: pow10_def)
qed

lemma parse_number_Number_toString:
  assumes "finite_decimal x" and "ends_number rest"
  shows "parse_number (Number_toString x @ rest) = Some (x, rest)"
proof (cases "x < 0")
  case True
  then have "\<bar>x\<bar> = - x" by simp
  with True parse_number_signed [OF True assms] show ?thesis
    by (simp add: Number_toString_def Let_def)
next
  case False
  then have "\<bar>x\<bar> = x" and "0 \<le> x" by simp_all
  with False parse_number_unsigned [OF \<open>0 \<le> x\<close> assms] show ?thesis
    by (simp add: Number_toString_def Let_def)
qed

lemma Number_toString_first:
  "\<exists>c cs. Number_toString x = c # cs \<and> (c = CHR ''-'' \<or> is_digit c)"
proof -
  obtain c cs where cs: "nat_digits (nat \<lfloor>\<bar>x\<bar>\<rfloor>) = c # cs"
    using nat_digits_nonempty [of "nat \<lfloor>\<bar>x\<bar>\<rfloor>"] by (cases "nat_digits (nat \<lfloor>\<bar>x\<bar>\<rfloor>)") auto
  with nat_digits_digits [of "nat \<lfloor>\<bar>x\<bar>\<rfloor>"] have "is_digit c" by simp
  with cs show ?thesis
    by (simp add: Number_toString_def Let_def)
qed

section \<open>Strings and text: proofs\<close>

lemma char_eq_code:
  assumes "n < 256"
  shows "(c = char_of (n::nat)) = ((of_char c :: nat) = n)"
proof
  assume "c = char_of n"
  with assms show "(of_char c :: nat) = n" by (simp add: of_char_of)
next
  assume "(of_char c :: nat) = n"
  then have "char_of (of_char c :: nat) = char_of n" by simp
  then show "c = char_of n" by simp
qed

lemma special_chars:
  "(c = CHR 0x22) = ((of_char c :: nat) = 34)"
  "(c = CHR 0x5C) = ((of_char c :: nat) = 92)"
  "(c = CHR 0x08) = ((of_char c :: nat) = 8)"
  "(c = CHR 0x09) = ((of_char c :: nat) = 9)"
  "(c = CHR 0x0A) = ((of_char c :: nat) = 10)"
  "(c = CHR 0x0C) = ((of_char c :: nat) = 12)"
  "(c = CHR 0x0D) = ((of_char c :: nat) = 13)"
proof -
  have e: "CHR 0x22 = char_of (34::nat)" "CHR 0x5C = char_of (92::nat)"
    "CHR 0x08 = char_of (8::nat)" "CHR 0x09 = char_of (9::nat)" "CHR 0x0A = char_of (10::nat)"
    "CHR 0x0C = char_of (12::nat)" "CHR 0x0D = char_of (13::nat)"
    by code_simp+
  show "(c = CHR 0x22) = ((of_char c :: nat) = 34)"
    "(c = CHR 0x5C) = ((of_char c :: nat) = 92)"
    "(c = CHR 0x08) = ((of_char c :: nat) = 8)"
    "(c = CHR 0x09) = ((of_char c :: nat) = 9)"
    "(c = CHR 0x0A) = ((of_char c :: nat) = 10)"
    "(c = CHR 0x0C) = ((of_char c :: nat) = 12)"
    "(c = CHR 0x0D) = ((of_char c :: nat) = 13)"
    unfolding e by (simp_all add: char_eq_code)
qed

lemma hex_val_hex_char: "d < 16 \<Longrightarrow> hex_val (hex_char d) = Some d"
  by (simp add: hex_val_def hex_char_def of_char_of Let_def)

lemma hex4_escape:
  assumes "n < 256"
  shows "hex4 (CHR ''0'') (CHR ''0'') (hex_char (n div 16)) (hex_char (n mod 16)) = Some n"
proof -
  have "n div 16 < 16" using assms by simp
  then have "hex_val (hex_char (n div 16)) = Some (n div 16)" by (rule hex_val_hex_char)
  moreover have "hex_val (hex_char (n mod 16)) = Some (n mod 16)" by (rule hex_val_hex_char) simp
  moreover have "hex_val (CHR ''0'') = Some 0" by (simp add: hex_val_def)
  ultimately show ?thesis by (simp add: hex4_def)
qed

lemma parse_string_body_quote_char:
  "parse_string_body (quote_char c @ t) = map_option (apfst ((#) c)) (parse_string_body t)"
proof -
  define n where "n = (of_char c :: nat)"
  have n256: "n < 256" by (simp add: n_def)
  have c: "char_of n = c" by (simp add: n_def)
  consider (short) "n = 8 \<or> n = 9 \<or> n = 10 \<or> n = 12 \<or> n = 13 \<or> n = 34 \<or> n = 92"
    | (hex) "n < 32" "n \<noteq> 8" "n \<noteq> 9" "n \<noteq> 10" "n \<noteq> 12" "n \<noteq> 13"
    | (plain) "32 \<le> n" "n \<noteq> 34" "n \<noteq> 92"
    by linarith
  then show ?thesis
  proof cases
    case short
    then have "c = CHR 0x08 \<or> c = CHR 0x09 \<or> c = CHR 0x0A \<or> c = CHR 0x0C \<or> c = CHR 0x0D
        \<or> c = CHR 0x22 \<or> c = CHR 0x5C"
      by (simp add: special_chars n_def)
    then show ?thesis
      by (elim disjE) (simp_all add: quote_char_def unescape_def)
  next
    case hex
    then have q: "quote_char c =
        [CHR 0x5C, CHR ''u'', CHR ''0'', CHR ''0'', hex_char (n div 16), hex_char (n mod 16)]"
      unfolding quote_char_def Let_def n_def [symmetric] by simp
    show ?thesis
      unfolding q by (simp add: hex4_escape [OF n256] c)
  next
    case plain
    then have q: "quote_char c = [c]"
      unfolding quote_char_def Let_def n_def [symmetric] by simp
    from plain show ?thesis
      unfolding q by (simp add: special_chars n_def [symmetric])
  qed
qed

lemma parse_string_body_quoted:
  "parse_string_body (concat (map quote_char s) @ CHR 0x22 # rest) = Some (s, rest)"
  by (induction s) (simp_all add: parse_string_body_quote_char)

lemma parse_string_QuoteJSONString:
  "parse_string (QuoteJSONString s @ rest) = Parsed s rest"
  by (simp add: parse_string_def QuoteJSONString_def parse_string_body_quoted)

section \<open>Parsing what was written: proofs\<close>

lemma skip_ws_start: "\<not> is_ws c \<Longrightarrow> skip_ws (c # cs) = c # cs"
  by (simp add: skip_ws_def)

lemma number_start:
  assumes "c = CHR ''-'' \<or> is_digit c"
  shows "\<not> is_ws c" and "c \<noteq> CHR ''[''" and "c \<noteq> CHR ''{''" and "c \<noteq> CHR 0x22"
    and "c \<noteq> CHR ''t''" and "c \<noteq> CHR ''f''" and "c \<noteq> CHR ''n''"
  using assms by (auto simp: is_digit_def is_ws_def)

lemma parse_value_number:
  assumes "finite_decimal x" and "ends_number rest"
  shows "parse_value (Suc n) (Number_toString x @ rest) = Parsed (JNumber x) rest"
proof -
  obtain c cs where cs: "Number_toString x = c # cs" and c: "c = CHR ''-'' \<or> is_digit c"
    using Number_toString_first [of x] by blast
  have "parse_number (c # cs @ rest) = Some (x, rest)"
    using parse_number_Number_toString [OF assms] by (simp add: cs)
  then show ?thesis
    by (simp add: parse_value.simps cs skip_ws_start number_start [OF c])
qed

lemma QuoteJSONString_start: "QuoteJSONString s = CHR 0x22 # concat (map quote_char s) @ [CHR 0x22]"
  by (simp add: QuoteJSONString_def)

lemma skip_ws_quoted: "skip_ws (QuoteJSONString s @ rest) = QuoteJSONString s @ rest"
  by (simp add: QuoteJSONString_start skip_ws_start is_ws_def)

lemma parse_value_string:
  "parse_value (Suc n) (QuoteJSONString s @ rest) = Parsed (JString s) rest"
proof -
  have "parse_string (CHR 0x22 # concat (map quote_char s) @ CHR 0x22 # rest) = Parsed s rest"
    using parse_string_QuoteJSONString [of s rest] by (simp add: QuoteJSONString_start)
  then show ?thesis
    by (simp add: parse_value.simps QuoteJSONString_start skip_ws_start is_ws_def bind_parsed_def)
qed

lemma ends_number_comma: "ends_number (CHR '','' # s)"
  by (simp add: ends_number_def is_digit_def)

lemma parse_members_more:
  assumes "parse_string (skip_ws s) = Parsed k (CHR '':'' # s1)"
    and "parse_value n s1 = Parsed v (CHR '','' # s2)"
    and "parse_members n s2 = Parsed ms r"
  shows "parse_members (Suc n) s = Parsed ((k, v) # ms) r"
  by (simp add: parse_members.simps assms bind_parsed_def skip_ws_start is_ws_def)

lemma parse_members_last:
  assumes "parse_string (skip_ws s) = Parsed k (CHR '':'' # s1)"
    and "parse_value n s1 = Parsed v (CHR ''}'' # r)"
  shows "parse_members (Suc n) s = Parsed [(k, v)] r"
  by (simp add: parse_members.simps assms bind_parsed_def skip_ws_start is_ws_def)

lemma parse_value_object:
  assumes "parse_members n (CHR 0x22 # cs) = Parsed ms r"
  shows "parse_value (Suc n) (CHR ''{'' # CHR 0x22 # cs) = Parsed (JObject (make_object ms)) r"
  by (simp add: parse_value.simps assms bind_parsed_def skip_ws_start is_ws_def)

lemma parse_elements_more:
  assumes "parse_value n s = Parsed v (CHR '','' # s1)"
    and "parse_elements n s1 = Parsed vs r"
  shows "parse_elements (Suc n) s = Parsed (v # vs) r"
  by (simp add: parse_elements.simps assms bind_parsed_def skip_ws_start is_ws_def)

lemma parse_elements_last:
  assumes "parse_value n s = Parsed v (CHR '']'' # r)"
  shows "parse_elements (Suc n) s = Parsed [v] r"
  by (simp add: parse_elements.simps assms bind_parsed_def skip_ws_start is_ws_def)

lemma parse_value_array:
  assumes "parse_elements n (CHR ''{'' # cs) = Parsed vs r"
  shows "parse_value (Suc n) (CHR ''['' # CHR ''{'' # cs) = Parsed (JArray vs) r"
  by (simp add: parse_value.simps assms bind_parsed_def skip_ws_start is_ws_def)

lemma parse_value_empty_array:
  "parse_value (Suc n) (CHR ''['' # CHR '']'' # r) = Parsed (JArray []) r"
  by (simp add: parse_value.simps skip_ws_start is_ws_def)

lemma make_object_review:
  "make_object [(''rating'', x), (''comment'', y)] = [(''rating'', x), (''comment'', y)]"
  by (simp add: make_object_def obj_put_def is_index_key_def is_digit_def)

lemma JSON_stringify_review:
  "JSON_stringify (js_of_review r) = CHR ''{'' # review_text r"
  by (simp add: js_of_review_def review_text_def)

lemma parse_members_review:
  assumes "finite_decimal (rating r)"
  shows "parse_members (Suc (Suc (Suc n))) (review_text r @ rest)
         = Parsed [(''rating'', JNumber (rating r)), (''comment'', JString (comment r))] rest"
proof -
  let ?t3 = "QuoteJSONString (comment r) @ CHR ''}'' # rest"
  let ?t2 = "QuoteJSONString ''comment'' @ CHR '':'' # ?t3"
  let ?t1 = "Number_toString (rating r) @ CHR '','' # ?t2"
  let ?t0 = "QuoteJSONString ''rating'' @ CHR '':'' # ?t1"
  have t0: "review_text r @ rest = ?t0"
    by (simp add: review_text_def)
  have v3: "parse_value (Suc n) ?t3 = Parsed (JString (comment r)) (CHR ''}'' # rest)"
    by (rule parse_value_string)
  have k2: "parse_string (skip_ws ?t2) = Parsed ''comment'' (CHR '':'' # ?t3)"
    by (simp only: skip_ws_quoted parse_string_QuoteJSONString)
  have m2: "parse_members (Suc (Suc n)) ?t2 = Parsed [(''comment'', JString (comment r))] rest"
    using k2 v3 by (rule parse_members_last)
  have v1: "parse_value (Suc (Suc n)) ?t1 = Parsed (JNumber (rating r)) (CHR '','' # ?t2)"
    using assms ends_number_comma by (rule parse_value_number)
  have k1: "parse_string (skip_ws ?t0) = Parsed ''rating'' (CHR '':'' # ?t1)"
    by (simp only: skip_ws_quoted parse_string_QuoteJSONString)
  show ?thesis
    unfolding t0 using k1 v1 m2 by (rule parse_members_more)
qed

lemma parse_value_review:
  assumes "finite_decimal (rating r)" and "4 \<le> n"
  shows "parse_value n (JSON_stringify (js_of_review r) @ rest) = Parsed (js_of_review r) rest"
proof -
  from assms(2) obtain k where "n = 4 + k"
    using le_Suc_ex by blast
  then have n: "n = Suc (Suc (Suc (Suc k)))" by simp
  obtain cs where cs: "review_text r @ rest = CHR 0x22 # cs"
    by (simp add: review_text_def QuoteJSONString_start)
  then have t: "JSON_stringify (js_of_review r) @ rest = CHR ''{'' # CHR 0x22 # cs"
    by (simp add: JSON_stringify_review)
  have "parse_members (Suc (Suc (Suc k))) (CHR 0x22 # cs)
          = Parsed [(''rating'', JNumber (rating r)), (''comment'', JString (comment r))] rest"
    using parse_members_review [OF assms(1), of k rest] by (simp only: cs)
  from parse_value_object [OF this] show ?thesis
    unfolding t n by (simp add: make_object_review js_of_review_def)
qed

lemma parse_elements_reviews:
  assumes "rs \<noteq> []" and "\<forall>r\<in>set rs. finite_decimal (rating r)" and "length rs + 4 \<le> n"
  shows "parse_elements n (join_comma (map (\<lambda>r. JSON_stringify (js_of_review r)) rs) @ CHR '']'' # rest)
         = Parsed (map js_of_review rs) rest"
  using assms
proof (induction rs arbitrary: n rule: list_nonempty_induct)
  case (single r)
  then obtain m where n: "n = Suc m" and m: "4 \<le> m"
    by (cases n) auto
  from single have "finite_decimal (rating r)" by simp
  from parse_value_review [OF this m, of "CHR '']'' # rest"]
  show ?case
    unfolding n by (simp add: parse_elements_last)
next
  case (cons r rs)
  then obtain m where n: "n = Suc m" and m: "length rs + 4 \<le> m"
    by (cases n) auto
  then have m4: "4 \<le> m" by simp
  from cons.prems have fr: "finite_decimal (rating r)" and frs: "\<forall>r\<in>set rs. finite_decimal (rating r)"
    by simp_all
  obtain x xs where xs: "rs = x # xs" using cons.hyps by (cases rs) auto
  let ?tail = "join_comma (map (\<lambda>r. JSON_stringify (js_of_review r)) rs) @ CHR '']'' # rest"
  have 1: "parse_value m (JSON_stringify (js_of_review r) @ CHR '','' # ?tail)
            = Parsed (js_of_review r) (CHR '','' # ?tail)"
    using fr m4 by (rule parse_value_review)
  have 2: "parse_elements m ?tail = Parsed (map js_of_review rs) rest"
    using frs m by (rule cons.IH)
  have "parse_elements (Suc m) (JSON_stringify (js_of_review r) @ CHR '','' # ?tail)
          = Parsed (js_of_review r # map js_of_review rs) rest"
    using 1 2 by (rule parse_elements_more)
  then show ?case
    by (simp add: n xs)
qed

section \<open>The parser has fuel enough: proofs\<close>

lemma skip_ws_Cons_length: "skip_ws s = c # cs \<Longrightarrow> length cs < length s"
proof -
  assume a: "skip_ws s = c # cs"
  have "length (skip_ws s) \<le> length s"
    unfolding skip_ws_def by (rule length_dropWhile_le)
  with a show ?thesis by simp
qed

lemma parse_string_body_consumes:
  "parse_string_body s = Some (x, r) \<Longrightarrow> length r < length s"
proof (induction s arbitrary: x r rule: length_induct)
  case (1 s)
  have ih: "length r' < length t" if "length t < length s" and "parse_string_body t = Some (y, r')"
    for t y r'
    using "1.IH" that by blast
  from "1.prems" obtain c cs where s: "s = c # cs"
    by (cases s) auto
  show ?case
  proof (cases "c = CHR 0x22")
    case True
    with "1.prems" s show ?thesis by simp
  next
    case q: False
    show ?thesis
    proof (cases "c = CHR 0x5C")
      case False
      with q "1.prems" s obtain y where "parse_string_body cs = Some (y, r)"
        by (auto split: if_splits)
      from ih [OF _ this] s show ?thesis by simp
    next
      case True
      show ?thesis
      proof (cases cs)
        case Nil
        with True q "1.prems" s show ?thesis by simp
      next
        case (Cons e es)
        show ?thesis
        proof (cases "e = CHR ''u''")
          case False
          with True q Cons "1.prems" s obtain y where "parse_string_body es = Some (y, r)"
            by (auto split: option.splits)
          from ih [OF _ this] s Cons show ?thesis by simp
        next
          case u: True
          with True q Cons "1.prems" s obtain h1 h2 h3 h4 t y where
            es: "es = h1 # h2 # h3 # h4 # t" and p: "parse_string_body t = Some (y, r)"
            by (auto split: list.splits option.splits)
          from ih [OF _ p] s Cons es show ?thesis by simp
        qed
      qed
    qed
  qed
qed

lemma parse_string_consumes: "parse_string s = Parsed k r \<Longrightarrow> length r < length s"
  by (cases s)
    (auto simp: parse_string_def split: if_splits option.splits dest: parse_string_body_consumes)

lemma parse_literal_consumes:
  "w \<noteq> [] \<Longrightarrow> parse_literal w v s = Parsed v' r \<Longrightarrow> length r < length s"
proof -
  assume w: "w \<noteq> []" and p: "parse_literal w v s = Parsed v' r"
  then have t: "take (length w) s = w" and r: "r = drop (length w) s"
    by (auto simp: parse_literal_def split: if_splits)
  from t w have "s \<noteq> []" by auto
  with r w show ?thesis by simp
qed

lemma parse_int_part_consumes: "parse_int_part s = Some (i, r) \<Longrightarrow> length r < length s"
proof (cases s)
  case Nil
  then show "parse_int_part s = Some (i, r) \<Longrightarrow> length r < length s"
    by (simp add: parse_int_part_def)
next
  case (Cons c cs)
  assume "parse_int_part s = Some (i, r)"
  with Cons have "r = cs \<or> (is_digit c \<and> r = dropWhile is_digit (c # cs))"
    by (auto simp: parse_int_part_def split: if_splits)
  then show "length r < length s"
  proof
    assume "r = cs"
    with Cons show ?thesis by simp
  next
    assume "is_digit c \<and> r = dropWhile is_digit (c # cs)"
    then have "r = dropWhile is_digit cs" by simp
    with Cons length_dropWhile_le [of is_digit cs] show ?thesis by simp
  qed
qed

lemma parse_frac_part_consumes: "parse_frac_part s = Some (f, r) \<Longrightarrow> length r \<le> length s"
proof (cases s)
  case Nil
  then show "parse_frac_part s = Some (f, r) \<Longrightarrow> length r \<le> length s"
    by (simp add: parse_frac_part_def)
next
  case (Cons c cs)
  assume "parse_frac_part s = Some (f, r)"
  with Cons have "r = s \<or> r = dropWhile is_digit cs"
    by (auto simp: parse_frac_part_def split: if_splits)
  with Cons length_dropWhile_le [of is_digit cs] show "length r \<le> length s"
    by auto
qed

lemma parse_exp_sign_consumes: "parse_exp_sign s = (sg, r) \<Longrightarrow> length r \<le> length s"
  by (cases s) (auto simp: parse_exp_sign_def split: if_splits)

lemma parse_exp_part_consumes: "parse_exp_part s = Some (e, r) \<Longrightarrow> length r \<le> length s"
proof (cases s)
  case Nil
  then show "parse_exp_part s = Some (e, r) \<Longrightarrow> length r \<le> length s"
    by (simp add: parse_exp_part_def)
next
  case (Cons c cs)
  assume a: "parse_exp_part s = Some (e, r)"
  obtain sg t where t: "parse_exp_sign cs = (sg, t)" by (cases "parse_exp_sign cs")
  with a Cons have "r = s \<or> r = dropWhile is_digit t"
    by (auto simp: parse_exp_part_def split: if_splits)
  with Cons length_dropWhile_le [of is_digit t] parse_exp_sign_consumes [OF t]
  show "length r \<le> length s"
    by auto
qed

lemma parse_number_consumes: "parse_number s = Some (x, r) \<Longrightarrow> length r < length s"
proof -
  assume a: "parse_number s = Some (x, r)"
  obtain sg s1 where s1: "(case s of [] \<Rightarrow> (1::rat, s) | c # cs \<Rightarrow> if c = CHR ''-'' then (- 1, cs) else (1, s)) = (sg, s1)"
    by (cases "(case s of [] \<Rightarrow> (1::rat, s) | c # cs \<Rightarrow> if c = CHR ''-'' then (- 1, cs) else (1, s))")
  then have l1: "length s1 \<le> length s"
    by (cases s) (auto split: if_splits)
  from a s1 obtain i s2 f s3 e where
    "parse_int_part s1 = Some (i, s2)" "parse_frac_part s2 = Some (f, s3)"
    "parse_exp_part s3 = Some (e, r)"
    unfolding parse_number_def by (auto split: option.splits)
  from parse_int_part_consumes [OF this(1)] parse_frac_part_consumes [OF this(2)]
    parse_exp_part_consumes [OF this(3)] l1
  show ?thesis by linarith
qed

lemma bind_parsed_Parsed:
  "bind_parsed p f = Parsed v r \<Longrightarrow> \<exists>u t. p = Parsed u t \<and> f u t = Parsed v r"
  by (cases p) (simp_all add: bind_parsed_def)

lemma parse_value_consumes_step:
  assumes e: "\<And>s vs r. parse_elements n s = Parsed vs r \<Longrightarrow> length r < length s"
    and m: "\<And>s ms r. parse_members n s = Parsed ms r \<Longrightarrow> length r < length s"
    and p: "parse_value (Suc n) s = Parsed v r"
  shows "length r < length s"
proof -
  from p obtain c cs where cs: "skip_ws s = c # cs"
    by (cases "skip_ws s") (simp_all add: parse_value.simps)
  note l = skip_ws_Cons_length [OF cs]
  note p' = p [unfolded parse_value.simps cs list.case]
  consider (array) "c = CHR ''[''" | (object) "c \<noteq> CHR ''[''" "c = CHR ''{''"
    | (string) "c \<noteq> CHR ''[''" "c \<noteq> CHR ''{''" "c = CHR 0x22"
    | (true) "c \<noteq> CHR ''[''" "c \<noteq> CHR ''{''" "c \<noteq> CHR 0x22" "c = CHR ''t''"
    | (false) "c \<noteq> CHR ''[''" "c \<noteq> CHR ''{''" "c \<noteq> CHR 0x22" "c \<noteq> CHR ''t''" "c = CHR ''f''"
    | (null) "c \<noteq> CHR ''[''" "c \<noteq> CHR ''{''" "c \<noteq> CHR 0x22" "c \<noteq> CHR ''t''" "c \<noteq> CHR ''f''"
        "c = CHR ''n''"
    | (number) "c \<noteq> CHR ''[''" "c \<noteq> CHR ''{''" "c \<noteq> CHR 0x22" "c \<noteq> CHR ''t''" "c \<noteq> CHR ''f''"
        "c \<noteq> CHR ''n''"
    by blast
  then have "length r < length (c # cs)"
  proof cases
    case array
    with p' obtain d ds where ds: "skip_ws cs = d # ds"
      by (cases "skip_ws cs") simp_all
    show ?thesis
    proof (cases "d = CHR '']''")
      case True
      with p' array ds skip_ws_Cons_length [OF ds] show ?thesis by simp
    next
      case False
      with p' array ds obtain vs where "parse_elements n cs = Parsed vs r"
        by (auto dest!: bind_parsed_Parsed)
      from e [OF this] show ?thesis by simp
    qed
  next
    case object
    with p' obtain d ds where ds: "skip_ws cs = d # ds"
      by (cases "skip_ws cs") simp_all
    show ?thesis
    proof (cases "d = CHR ''}''")
      case True
      with p' object ds skip_ws_Cons_length [OF ds] show ?thesis by simp
    next
      case False
      with p' object ds obtain ms where "parse_members n cs = Parsed ms r"
        by (auto dest!: bind_parsed_Parsed)
      from m [OF this] show ?thesis by simp
    qed
  next
    case string
    with p' obtain str where "parse_string (c # cs) = Parsed str r"
      by (auto dest!: bind_parsed_Parsed)
    then show ?thesis by (rule parse_string_consumes)
  next
    case true
    with p' have "parse_literal ''true'' (JBool True) (c # cs) = Parsed v r" by simp
    then show ?thesis by (rule parse_literal_consumes [rotated]) simp
  next
    case false
    with p' have "parse_literal ''false'' (JBool False) (c # cs) = Parsed v r" by simp
    then show ?thesis by (rule parse_literal_consumes [rotated]) simp
  next
    case null
    with p' have "parse_literal ''null'' JNull (c # cs) = Parsed v r" by simp
    then show ?thesis by (rule parse_literal_consumes [rotated]) simp
  next
    case number
    with p' obtain x where "parse_number (c # cs) = Some (x, r)"
      by (auto split: option.splits)
    then show ?thesis by (rule parse_number_consumes)
  qed
  with l show ?thesis by simp
qed

lemma parse_elements_consumes_step:
  assumes v: "\<And>s v r. parse_value n s = Parsed v r \<Longrightarrow> length r < length s"
    and e: "\<And>s vs r. parse_elements n s = Parsed vs r \<Longrightarrow> length r < length s"
    and p: "parse_elements (Suc n) s = Parsed vs r"
  shows "length r < length s"
proof -
  from p [unfolded parse_elements.simps] obtain u t where
    1: "parse_value n s = Parsed u t"
    and 2: "(case skip_ws t of [] \<Rightarrow> Rejected
             | c # cs \<Rightarrow>
                 if c = CHR '','' then bind_parsed (parse_elements n cs) (\<lambda>vs r'. Parsed (u # vs) r')
                 else if c = CHR '']'' then Parsed [u] cs else Rejected) = Parsed vs r"
    by (auto dest!: bind_parsed_Parsed)
  from 2 obtain c cs where cs: "skip_ws t = c # cs"
    by (cases "skip_ws t") simp_all
  note l = v [OF 1] skip_ws_Cons_length [OF cs]
  show ?thesis
  proof (cases "c = CHR '',''")
    case True
    with 2 cs obtain ws where "parse_elements n cs = Parsed ws r"
      by (auto dest!: bind_parsed_Parsed)
    from e [OF this] l show ?thesis by simp
  next
    case False
    with 2 cs have "r = cs" by (auto split: if_splits)
    with l show ?thesis by simp
  qed
qed

lemma parse_members_consumes_step:
  assumes v: "\<And>s v r. parse_value n s = Parsed v r \<Longrightarrow> length r < length s"
    and m: "\<And>s ms r. parse_members n s = Parsed ms r \<Longrightarrow> length r < length s"
    and p: "parse_members (Suc n) s = Parsed ms r"
  shows "length r < length s"
proof -
  from p [unfolded parse_members.simps] obtain k t where
    1: "parse_string (skip_ws s) = Parsed k t"
    and 2: "(case skip_ws t of [] \<Rightarrow> Rejected
             | c # cs \<Rightarrow>
                 if c = CHR '':'' then
                   bind_parsed (parse_value n cs) (\<lambda>v r'.
                     case skip_ws r' of [] \<Rightarrow> Rejected
                     | d # ds \<Rightarrow>
                         if d = CHR '','' then
                           bind_parsed (parse_members n ds) (\<lambda>ms r''. Parsed ((k, v) # ms) r'')
                         else if d = CHR ''}'' then Parsed [(k, v)] ds
                         else Rejected)
                 else Rejected) = Parsed ms r"
    by (auto dest!: bind_parsed_Parsed)
  have l0: "length t < length s"
    using parse_string_consumes [OF 1] length_dropWhile_le [of is_ws s]
    by (simp add: skip_ws_def)
  from 2 obtain c cs where cs: "skip_ws t = c # cs"
    by (cases "skip_ws t") simp_all
  with 2 obtain u t' where
    3: "parse_value n cs = Parsed u t'"
    and 4: "(case skip_ws t' of [] \<Rightarrow> Rejected
             | d # ds \<Rightarrow>
                 if d = CHR '','' then
                   bind_parsed (parse_members n ds) (\<lambda>ms r''. Parsed ((k, u) # ms) r'')
                 else if d = CHR ''}'' then Parsed [(k, u)] ds
                 else Rejected) = Parsed ms r"
    by (auto dest!: bind_parsed_Parsed split: if_splits)
  from 4 obtain d ds where ds: "skip_ws t' = d # ds"
    by (cases "skip_ws t'") simp_all
  note l = l0 skip_ws_Cons_length [OF cs] v [OF 3] skip_ws_Cons_length [OF ds]
  show ?thesis
  proof (cases "d = CHR '',''")
    case True
    with 4 ds obtain ws where "parse_members n ds = Parsed ws r"
      by (auto dest!: bind_parsed_Parsed)
    from m [OF this] l show ?thesis by simp
  next
    case False
    with 4 ds have "r = ds" by (auto split: if_splits)
    with l show ?thesis by simp
  qed
qed

lemma parser_consumes:
  "(\<forall>s v r. parse_value n s = Parsed v r \<longrightarrow> length r < length s)
   \<and> (\<forall>s vs r. parse_elements n s = Parsed vs r \<longrightarrow> length r < length s)
   \<and> (\<forall>s ms r. parse_members n s = Parsed ms r \<longrightarrow> length r < length s)"
proof (induction n)
  case 0
  show ?case by (simp add: parse_value.simps parse_elements.simps parse_members.simps)
next
  case (Suc n)
  then have v: "\<And>s v r. parse_value n s = Parsed v r \<Longrightarrow> length r < length s"
    and e: "\<And>s vs r. parse_elements n s = Parsed vs r \<Longrightarrow> length r < length s"
    and m: "\<And>s ms r. parse_members n s = Parsed ms r \<Longrightarrow> length r < length s"
    by blast+
  show ?case
  proof (intro conjI allI impI)
    fix s v r
    assume "parse_value (Suc n) s = Parsed v r"
    then show "length r < length s"
      by (rule parse_value_consumes_step [rotated 2]) (erule e m)+
  next
    fix s vs r
    assume "parse_elements (Suc n) s = Parsed vs r"
    then show "length r < length s"
      by (rule parse_elements_consumes_step [rotated 2]) (erule v e)+
  next
    fix s ms r
    assume "parse_members (Suc n) s = Parsed ms r"
    then show "length r < length s"
      by (rule parse_members_consumes_step [rotated 2]) (erule v m)+
  qed
qed

lemma parse_value_consumes: "parse_value n s = Parsed v r \<Longrightarrow> length r < length s"
  using parser_consumes [of n] by blast

lemma bind_parsed_OutOfFuel:
  "bind_parsed p f = OutOfFuel \<Longrightarrow> p = OutOfFuel \<or> (\<exists>u t. p = Parsed u t \<and> f u t = OutOfFuel)"
  by (cases p) (simp_all add: bind_parsed_def)

lemma parse_string_fuel: "parse_string s \<noteq> OutOfFuel"
  by (cases s) (auto simp: parse_string_def split: option.splits)

lemma parse_literal_fuel: "parse_literal w v s \<noteq> OutOfFuel"
  by (simp add: parse_literal_def)

lemma parse_value_fuel_step:
  assumes e: "\<And>s. 2 * length s + 1 < n \<Longrightarrow> parse_elements n s \<noteq> OutOfFuel"
    and m: "\<And>s. 2 * length s + 1 < n \<Longrightarrow> parse_members n s \<noteq> OutOfFuel"
    and n: "2 * length s < Suc n"
  shows "parse_value (Suc n) s \<noteq> OutOfFuel"
proof
  assume p: "parse_value (Suc n) s = OutOfFuel"
  then obtain c cs where cs: "skip_ws s = c # cs"
    by (cases "skip_ws s") (simp_all add: parse_value.simps)
  from skip_ws_Cons_length [OF cs] n have l: "2 * length cs + 1 < n" by linarith
  note p' = p [unfolded parse_value.simps cs list.case]
  consider (array) "c = CHR ''[''" | (object) "c \<noteq> CHR ''[''" "c = CHR ''{''"
    | (string) "c \<noteq> CHR ''[''" "c \<noteq> CHR ''{''" "c = CHR 0x22"
    | (other) "c \<noteq> CHR ''[''" "c \<noteq> CHR ''{''" "c \<noteq> CHR 0x22"
    by blast
  then show False
  proof cases
    case array
    with p' obtain d ds where ds: "skip_ws cs = d # ds"
      by (cases "skip_ws cs") simp_all
    with p' array have "parse_elements n cs = OutOfFuel"
      by (auto dest!: bind_parsed_OutOfFuel split: if_splits)
    with e [OF l] show False by simp
  next
    case object
    with p' obtain d ds where ds: "skip_ws cs = d # ds"
      by (cases "skip_ws cs") simp_all
    with p' object have "parse_members n cs = OutOfFuel"
      by (auto dest!: bind_parsed_OutOfFuel split: if_splits)
    with m [OF l] show False by simp
  next
    case string
    with p' show False
      by (auto dest!: bind_parsed_OutOfFuel simp: parse_string_fuel)
  next
    case other
    with p' show False
      by (auto simp: parse_literal_fuel split: if_splits option.splits)
  qed
qed

lemma parse_elements_fuel_step:
  assumes v: "\<And>s. 2 * length s < n \<Longrightarrow> parse_value n s \<noteq> OutOfFuel"
    and e: "\<And>s. 2 * length s + 1 < n \<Longrightarrow> parse_elements n s \<noteq> OutOfFuel"
    and n: "2 * length s + 1 < Suc n"
  shows "parse_elements (Suc n) s \<noteq> OutOfFuel"
proof
  assume p: "parse_elements (Suc n) s = OutOfFuel"
  from n have "2 * length s < n" by simp
  from v [OF this] p [unfolded parse_elements.simps] obtain u t where
    1: "parse_value n s = Parsed u t"
    and 2: "(case skip_ws t of [] \<Rightarrow> Rejected
             | c # cs \<Rightarrow>
                 if c = CHR '','' then bind_parsed (parse_elements n cs) (\<lambda>vs r'. Parsed (u # vs) r')
                 else if c = CHR '']'' then Parsed [u] cs else Rejected) = OutOfFuel"
    by (auto dest!: bind_parsed_OutOfFuel)
  from 2 obtain c cs where cs: "skip_ws t = c # cs"
    by (cases "skip_ws t") simp_all
  with 2 have "parse_elements n cs = OutOfFuel"
    by (auto dest!: bind_parsed_OutOfFuel split: if_splits)
  moreover from parse_value_consumes [OF 1] skip_ws_Cons_length [OF cs] n
  have "2 * length cs + 1 < n" by linarith
  ultimately show False using e by blast
qed

lemma parse_members_fuel_step:
  assumes v: "\<And>s. 2 * length s < n \<Longrightarrow> parse_value n s \<noteq> OutOfFuel"
    and m: "\<And>s. 2 * length s + 1 < n \<Longrightarrow> parse_members n s \<noteq> OutOfFuel"
    and n: "2 * length s + 1 < Suc n"
  shows "parse_members (Suc n) s \<noteq> OutOfFuel"
proof
  assume p: "parse_members (Suc n) s = OutOfFuel"
  from p [unfolded parse_members.simps] parse_string_fuel [of "skip_ws s"] obtain k t where
    1: "parse_string (skip_ws s) = Parsed k t"
    and 2: "(case skip_ws t of [] \<Rightarrow> Rejected
             | c # cs \<Rightarrow>
                 if c = CHR '':'' then
                   bind_parsed (parse_value n cs) (\<lambda>v r'.
                     case skip_ws r' of [] \<Rightarrow> Rejected
                     | d # ds \<Rightarrow>
                         if d = CHR '','' then
                           bind_parsed (parse_members n ds) (\<lambda>ms r''. Parsed ((k, v) # ms) r'')
                         else if d = CHR ''}'' then Parsed [(k, v)] ds
                         else Rejected)
                 else Rejected) = OutOfFuel"
    by (auto dest!: bind_parsed_OutOfFuel)
  have l0: "length t < length s"
    using parse_string_consumes [OF 1] length_dropWhile_le [of is_ws s]
    by (simp add: skip_ws_def)
  from 2 obtain c cs where cs: "skip_ws t = c # cs"
    by (cases "skip_ws t") simp_all
  note l1 = skip_ws_Cons_length [OF cs]
  from l0 l1 n have "2 * length cs < n" by linarith
  from v [OF this] 2 cs obtain u t' where
    3: "parse_value n cs = Parsed u t'"
    and 4: "(case skip_ws t' of [] \<Rightarrow> Rejected
             | d # ds \<Rightarrow>
                 if d = CHR '','' then
                   bind_parsed (parse_members n ds) (\<lambda>ms r''. Parsed ((k, u) # ms) r'')
                 else if d = CHR ''}'' then Parsed [(k, u)] ds
                 else Rejected) = OutOfFuel"
    by (auto dest!: bind_parsed_OutOfFuel split: if_splits)
  from 4 obtain d ds where ds: "skip_ws t' = d # ds"
    by (cases "skip_ws t'") simp_all
  with 4 have "parse_members n ds = OutOfFuel"
    by (auto dest!: bind_parsed_OutOfFuel split: if_splits)
  moreover from l0 l1 parse_value_consumes [OF 3] skip_ws_Cons_length [OF ds] n
  have "2 * length ds + 1 < n" by linarith
  ultimately show False using m by blast
qed

lemma parser_fuel:
  "(\<forall>s. 2 * length s < n \<longrightarrow> parse_value n s \<noteq> OutOfFuel)
   \<and> (\<forall>s. 2 * length s + 1 < n \<longrightarrow> parse_elements n s \<noteq> OutOfFuel)
   \<and> (\<forall>s. 2 * length s + 1 < n \<longrightarrow> parse_members n s \<noteq> OutOfFuel)"
proof (induction n)
  case 0
  show ?case by simp
next
  case (Suc n)
  then have v: "\<And>s. 2 * length s < n \<Longrightarrow> parse_value n s \<noteq> OutOfFuel"
    and e: "\<And>s. 2 * length s + 1 < n \<Longrightarrow> parse_elements n s \<noteq> OutOfFuel"
    and m: "\<And>s. 2 * length s + 1 < n \<Longrightarrow> parse_members n s \<noteq> OutOfFuel"
    by blast+
  show ?case
  proof (intro conjI allI impI)
    fix s :: string
    assume "2 * length s < Suc n"
    then show "parse_value (Suc n) s \<noteq> OutOfFuel"
      by (rule parse_value_fuel_step [rotated 2]) (erule e m)+
  next
    fix s :: string
    assume "2 * length s + 1 < Suc n"
    then show "parse_elements (Suc n) s \<noteq> OutOfFuel"
      by (rule parse_elements_fuel_step [rotated 2]) (erule v e)+
  next
    fix s :: string
    assume "2 * length s + 1 < Suc n"
    then show "parse_members (Suc n) s \<noteq> OutOfFuel"
      by (rule parse_members_fuel_step [rotated 2]) (erule v m)+
  qed
qed

text \<open>\<open>JSON_parse\<close> never stops for lack of fuel: it returns a value or rejects the text.\<close>

lemma JSON_parse_fuel: "parse_value (Suc (2 * length s)) s \<noteq> OutOfFuel"
  using parser_fuel [of "Suc (2 * length s)"] by simp

lemma JSON_parse_total:
  "JSON_parse s =
     (case parse_value (Suc (2 * length s)) s of
        Parsed v r \<Rightarrow> if skip_ws r = [] then Inr v else Inl SyntaxError
      | _ \<Rightarrow> Inl SyntaxError)
   \<and> (JSON_parse s = Inl SyntaxError) =
       (parse_value (Suc (2 * length s)) s = Rejected
        \<or> (\<exists>v r. parse_value (Suc (2 * length s)) s = Parsed v r \<and> skip_ws r \<noteq> []))"
  using JSON_parse_fuel [of s]
  by (auto simp: JSON_parse_def split: parsed.splits)

section \<open>The review store: proofs\<close>

lemma length_join_comma:
  "\<forall>x\<in>set xs. 3 \<le> length x \<Longrightarrow> 3 * length xs \<le> length (join_comma xs)"
  by (induction xs rule: join_comma.induct) simp_all

lemma length_JSON_stringify_review: "3 \<le> length (JSON_stringify (js_of_review r))"
  by (simp add: JSON_stringify_review review_text_def QuoteJSONString_start)

lemma JSON_stringify_reviews:
  "JSON_stringify (js_of_reviews rs) =
     CHR ''['' # join_comma (map (\<lambda>r. JSON_stringify (js_of_review r)) rs) @ [CHR '']'']"
  by (simp add: js_of_reviews_def comp_def)

lemma join_comma_reviews_start:
  assumes "rs \<noteq> []"
  shows "\<exists>cs. join_comma (map (\<lambda>r. JSON_stringify (js_of_review r)) rs) @ t = CHR ''{'' # cs"
proof -
  obtain r rs' where "rs = r # rs'" using assms by (cases rs) auto
  then show ?thesis
    by (cases rs') (simp_all add: JSON_stringify_review)
qed

lemma JSON_parse_stringify_reviews:
  assumes "\<forall>r\<in>set rs. finite_decimal (rating r)"
  shows "JSON_parse (JSON_stringify (js_of_reviews rs)) = Inr (js_of_reviews rs)"
proof (cases "rs = []")
  case True
  have "parse_value (Suc (2 * length ''[]'')) ''[]'' = Parsed (JArray []) []"
    by (rule parse_value_empty_array)
  then have "JSON_parse ''[]'' = Inr (JArray [])"
    unfolding JSON_parse_def by (simp add: skip_ws_def)
  with True show ?thesis
    by (simp add: JSON_stringify_reviews js_of_reviews_def)
next
  case False
  let ?j = "join_comma (map (\<lambda>r. JSON_stringify (js_of_review r)) rs)"
  let ?s = "CHR ''['' # ?j @ [CHR '']'']"
  have "3 * length (map (\<lambda>r. JSON_stringify (js_of_review r)) rs) \<le> length ?j"
    by (rule length_join_comma) (simp add: length_JSON_stringify_review)
  then have 1: "3 * length rs \<le> length ?j" by (simp only: length_map)
  have 2: "0 < length rs" using False by simp
  have "a + 4 \<le> 2 * Suc (l + 1)" if "3 * a \<le> l" and "0 < a" for a l :: nat
    using that by simp
  from this [OF 1 2] have fuel: "length rs + 4 \<le> 2 * length ?s" by simp
  obtain cs where cs: "?j @ [CHR '']''] = CHR ''{'' # cs"
    using join_comma_reviews_start [OF False] by blast
  have "parse_elements (2 * length ?s) (?j @ CHR '']'' # []) = Parsed (map js_of_review rs) []"
    using False assms fuel by (rule parse_elements_reviews)
  then have "parse_elements (2 * length ?s) (CHR ''{'' # cs) = Parsed (map js_of_review rs) []"
    by (simp only: cs)
  then have "parse_value (Suc (2 * length ?s)) (CHR ''['' # CHR ''{'' # cs)
               = Parsed (JArray (map js_of_review rs)) []"
    by (rule parse_value_array)
  then have "parse_value (Suc (2 * length ?s)) ?s = Parsed (js_of_reviews rs) []"
    by (simp only: cs js_of_reviews_def)
  then have "JSON_parse ?s = Inr (js_of_reviews rs)"
    unfolding JSON_parse_def by (simp only: parsed.case) (simp add: skip_ws_def)
  then show ?thesis
    by (simp only: JSON_stringify_reviews)
qed

lemma getItem_setItem: "getItem (setItem ls k v) k = Some v"
  by (simp add: getItem_def setItem_def)

lemma JSON_stringify_reviews_nonempty: "JSON_stringify (js_of_reviews rs) \<noteq> []"
  by (simp add: JSON_stringify_reviews)

lemma finite_decimal_of_int: "finite_decimal (of_int k)"
  unfolding finite_decimal_iff by (rule exI [of _ 0]) simp

lemma finite_decimal_halves: "finite_decimal (of_int k / 2)"
proof -
  have "of_int k / 2 * 10 ^ 1 = (of_int (k * 5) :: rat)" by simp
  also have "\<dots> \<in> \<int>" by (rule Ints_of_int)
  finally show ?thesis unfolding finite_decimal_iff by (rule exI)
qed

lemma review_of_js_js_of_review: "review_of_js (js_of_review r) = Some r"
  by (simp add: review_of_js_def js_of_review_def)

lemma reviews_of_js_js_of_reviews: "reviews_of_js (js_of_reviews rs) = Some rs"
  by (induction rs) (simp_all add: reviews_of_js_def js_of_reviews_def review_of_js_js_of_review)

lemma load_after_save_lemma:
  assumes "\<forall>r\<in>set R. finite_decimal (rating r)"
  shows "loadReviewsFromLocalStorage (saveReviewsToLocalStorage ls movieId R) movieId
           = Inr (js_of_reviews R)"
  using assms
  by (simp add: loadReviewsFromLocalStorage_def saveReviewsToLocalStorage_def getItem_setItem
      JSON_stringify_reviews_nonempty JSON_parse_stringify_reviews)

text \<open>
  C3. Saving a collection of reviews and loading it again returns that collection: the
  array of its reviews, in their order, each with its rating and its comment. What is
  saved is the one entry under the key of the movie.
\<close>

theorem load_after_save:
  assumes "\<forall>r\<in>set R. finite_decimal (rating r)"
  shows "loadReviewsFromLocalStorage (saveReviewsToLocalStorage ls movieId R) movieId
           = Inr (js_of_reviews R)
         \<and> map_sum id reviews_of_js
             (loadReviewsFromLocalStorage (saveReviewsToLocalStorage ls movieId R) movieId)
           = Inr (Some R)
         \<and> items (saveReviewsToLocalStorage ls movieId R)
           = (items ls)(storage_key movieId \<mapsto> JSON_stringify (js_of_reviews R))"
  using load_after_save_lemma [OF assms, of ls movieId]
  by (simp add: reviews_of_js_js_of_reviews saveReviewsToLocalStorage_def setItem_def)

theorem load_after_save_witness:
  "finite_decimal (rating example_review) \<and> finite_decimal (rating example_review_half)
   \<and> loadReviewsFromLocalStorage
        (saveReviewsToLocalStorage empty_storage 42 [example_review, example_review_half]) 42
      = Inr (JArray [JObject [(''rating'', JNumber 7), (''comment'', JString ''Good'')],
                     JObject [(''rating'', JNumber (15 / 2)), (''comment'', JString ''A \"B\"'')]])
   \<and> map_sum id reviews_of_js
        (loadReviewsFromLocalStorage
          (saveReviewsToLocalStorage empty_storage 42 [example_review, example_review_half]) 42)
      = Inr (Some [example_review, example_review_half])
   \<and> loadReviewsFromLocalStorage (saveReviewsToLocalStorage empty_storage 42 []) 42
      = Inr (JArray [])
   \<and> items (saveReviewsToLocalStorage empty_storage 42 [example_review])
      = [''movie-reviews-42'' \<mapsto> ''[{\"rating\":7,\"comment\":\"Good\"}]'']"
proof -
  have a: "finite_decimal (rating example_review)"
    using finite_decimal_of_int [of 7] by (simp add: example_review_def)
  have b: "finite_decimal (rating example_review_half)"
    using finite_decimal_halves [of 15] by (simp add: example_review_half_def)
  from a b have c: "\<forall>r\<in>set [example_review, example_review_half]. finite_decimal (rating r)"
    by simp
  from a have d: "\<forall>r\<in>set [example_review]. finite_decimal (rating r)"
    by simp
  have j: "js_of_reviews [example_review, example_review_half]
      = JArray [JObject [(''rating'', JNumber 7), (''comment'', JString ''Good'')],
                JObject [(''rating'', JNumber (15 / 2)), (''comment'', JString ''A \"B\"'')]]"
    "js_of_reviews [] = JArray []"
    by (simp_all add: js_of_reviews_def js_of_review_def example_review_def example_review_half_def)
  have k: "storage_key 42 = ''movie-reviews-42''"
    "JSON_stringify (js_of_reviews [example_review]) = ''[{\"rating\":7,\"comment\":\"Good\"}]''"
    by code_simp+
  have e: "items empty_storage = Map.empty"
    by (simp add: empty_storage_def)
  have n: "\<forall>r\<in>set ([] :: Review list). finite_decimal (rating r)"
    by simp
  note 1 = load_after_save [OF c, of empty_storage 42, THEN conjunct1, unfolded j]
  note 2 = load_after_save [OF c, of empty_storage 42, THEN conjunct2, THEN conjunct1]
  note 3 = load_after_save [OF n, of empty_storage 42, THEN conjunct1, unfolded j]
  note 4 = load_after_save [OF d, of empty_storage 42, THEN conjunct2, THEN conjunct2,
      unfolded k e]
  from a b 1 2 3 4 show ?thesis
    by blast
qed

text \<open>
  C2, as the specification states it, fails: a stored value that is not JSON makes
  \<^verbatim>\<open>JSON.parse\<close> raise \<^verbatim>\<open>SyntaxError\<close>, which nothing catches, and a stored value that
  is JSON but no array of reviews is returned as it is.
\<close>

theorem load_never_raises_counterexample:
  "storage_key 42 = ''movie-reviews-42''
   \<and> parse_value (Suc (2 * length ''oops'')) ''oops'' = Rejected
   \<and> loadReviewsFromLocalStorage
        \<lparr>items = [''movie-reviews-42'' \<mapsto> ''oops''], setItem_calls = []\<rparr> 42
      = Inl SyntaxError
   \<and> loadReviewsFromLocalStorage
        \<lparr>items = [''movie-reviews-42'' \<mapsto> ''5''], setItem_calls = []\<rparr> 42
      = Inr (JNumber 5)"
  by code_simp

lemma JSON_parse_error: "JSON_parse s \<noteq> Inl RangeError"
  by (simp add: JSON_parse_def split: parsed.splits)

text \<open>
  C2, amended. \<open>load\<close> returns the empty array when there is no entry under the key of
  the movie, or when the entry is the empty string. For every other stored value it
  returns what \<^verbatim>\<open>JSON.parse\<close> returns for it, and raises what \<^verbatim>\<open>JSON.parse\<close> raises:
  \<^verbatim>\<open>SyntaxError\<close>, exactly when the value is not the text of one JSON value, and no
  other error.
\<close>

theorem load_cases:
  "(getItem ls (storage_key movieId) = None \<or> getItem ls (storage_key movieId) = Some []
      \<longrightarrow> loadReviewsFromLocalStorage ls movieId = Inr (JArray []))
   \<and> (\<forall>v. getItem ls (storage_key movieId) = Some v \<and> v \<noteq> []
      \<longrightarrow> loadReviewsFromLocalStorage ls movieId = JSON_parse v
          \<and> (loadReviewsFromLocalStorage ls movieId = Inl SyntaxError) =
              (parse_value (Suc (2 * length v)) v = Rejected
               \<or> (\<exists>j r. parse_value (Suc (2 * length v)) v = Parsed j r \<and> skip_ws r \<noteq> [])))
   \<and> loadReviewsFromLocalStorage ls movieId \<noteq> Inl RangeError"
proof (intro conjI allI impI)
  assume "getItem ls (storage_key movieId) = None \<or> getItem ls (storage_key movieId) = Some []"
  then show "loadReviewsFromLocalStorage ls movieId = Inr (JArray [])"
    by (auto simp: loadReviewsFromLocalStorage_def)
next
  fix v
  assume v: "getItem ls (storage_key movieId) = Some v \<and> v \<noteq> []"
  then show eq: "loadReviewsFromLocalStorage ls movieId = JSON_parse v"
    by (simp add: loadReviewsFromLocalStorage_def)
  from JSON_parse_total [of v]
  show "(loadReviewsFromLocalStorage ls movieId = Inl SyntaxError) =
          (parse_value (Suc (2 * length v)) v = Rejected
           \<or> (\<exists>j r. parse_value (Suc (2 * length v)) v = Parsed j r \<and> skip_ws r \<noteq> []))"
    unfolding eq by (rule conjunct2)
next
  show "loadReviewsFromLocalStorage ls movieId \<noteq> Inl RangeError"
    by (simp add: loadReviewsFromLocalStorage_def JSON_parse_error split: option.splits)
qed

theorem load_cases_witness:
  "getItem empty_storage (storage_key 42) = None
   \<and> loadReviewsFromLocalStorage empty_storage 42 = Inr (JArray [])
   \<and> getItem \<lparr>items = [''movie-reviews-42'' \<mapsto> []], setItem_calls = []\<rparr> (storage_key 42) = Some []
   \<and> loadReviewsFromLocalStorage \<lparr>items = [''movie-reviews-42'' \<mapsto> []], setItem_calls = []\<rparr> 42
       = Inr (JArray [])
   \<and> getItem \<lparr>items = [''movie-reviews-42'' \<mapsto> ''[{\"rating\":7,\"comment\":\"Good\"}]''],
               setItem_calls = []\<rparr> (storage_key 42)
       = Some ''[{\"rating\":7,\"comment\":\"Good\"}]''
   \<and> loadReviewsFromLocalStorage
        \<lparr>items = [''movie-reviews-42'' \<mapsto> ''[{\"rating\":7,\"comment\":\"Good\"}]''],
          setItem_calls = []\<rparr> 42
       = Inr (JArray [JObject [(''rating'', JNumber 7), (''comment'', JString ''Good'')]])"
proof -
  have k: "storage_key 42 = ''movie-reviews-42''"
    by code_simp
  have p: "JSON_parse ''[{\"rating\":7,\"comment\":\"Good\"}]''
            = Inr (JArray [JObject [(''rating'', JNumber 7), (''comment'', JString ''Good'')]])"
    by code_simp
  show ?thesis
    using load_cases [of empty_storage 42]
      load_cases [of "\<lparr>items = [''movie-reviews-42'' \<mapsto> []], setItem_calls = []\<rparr>" 42]
      load_cases [of "\<lparr>items = [''movie-reviews-42'' \<mapsto> ''[{\"rating\":7,\"comment\":\"Good\"}]''],
          setItem_calls = []\<rparr>" 42]
    by (simp add: k p getItem_def empty_storage_def)
qed

section \<open>Submitting a valid review: proofs\<close>

text \<open>
  C1. With a movie selected, a rating within \<open>[1, 10]\<close> and a comment that is not empty,
  \<open>handleReviewSubmit\<close> appends the review to the collection in memory (the one the page
  loaded for the movie) and saves the result: loading the movie's reviews afterwards
  returns the collection with the review at its end. The rating input is reset to
  \<^verbatim>\<open>null\<close>, the comment input to the empty string, and the error message is cleared.
\<close>

theorem handleReviewSubmit_appends:
  assumes "currentMovie s = Some movie" and "rating_state s = Some r"
    and "1 \<le> r" and "r \<le> 10" and "finite_decimal r"
    and "comment_state s \<noteq> []"
    and "\<forall>x\<in>set (reviews s). finite_decimal (rating x)"
  shows "reviews (handleReviewSubmit s) = reviews s @ [\<lparr>rating = r, comment = comment_state s\<rparr>]
         \<and> localStorage (handleReviewSubmit s)
             = saveReviewsToLocalStorage (localStorage s) (id' movie)
                 (reviews s @ [\<lparr>rating = r, comment = comment_state s\<rparr>])
         \<and> loadReviewsFromLocalStorage (localStorage (handleReviewSubmit s)) (id' movie)
             = Inr (js_of_reviews (reviews s @ [\<lparr>rating = r, comment = comment_state s\<rparr>]))
         \<and> map_sum id reviews_of_js
               (loadReviewsFromLocalStorage (localStorage (handleReviewSubmit s)) (id' movie))
             = Inr (Some (reviews s @ [\<lparr>rating = r, comment = comment_state s\<rparr>]))
         \<and> rating_state (handleReviewSubmit s) = None
         \<and> comment_state (handleReviewSubmit s) = []
         \<and> errorMessage (handleReviewSubmit s) = []"
proof -
  let ?new = "\<lparr>rating = r, comment = comment_state s\<rparr>"
  have "\<not> (r < 1 \<or> 10 < r)" using assms(3,4) by simp
  with assms(1,2,6)
  have eq: "handleReviewSubmit s =
      s\<lparr>reviews := reviews s @ [?new],
        localStorage := saveReviewsToLocalStorage (localStorage s) (id' movie) (reviews s @ [?new]),
        rating_state := None, comment_state := [], errorMessage := []\<rparr>"
    by (simp add: handleReviewSubmit_def Let_def)
  have "\<forall>x\<in>set (reviews s @ [?new]). finite_decimal (rating x)"
    using assms(5,7) by simp
  then have "loadReviewsFromLocalStorage
               (saveReviewsToLocalStorage (localStorage s) (id' movie) (reviews s @ [?new]))
               (id' movie)
             = Inr (js_of_reviews (reviews s @ [?new]))"
    by (rule load_after_save_lemma)
  then show ?thesis
    unfolding eq by (simp add: reviews_of_js_js_of_reviews)
qed

theorem handleReviewSubmit_appends_witness:
  "currentMovie (example_page\<lparr>rating_state := Some 7, comment_state := ''Good'',
       reviews := [example_review_half], errorMessage := ''old''\<rparr>) = Some example_movie
   \<and> (1::rat) \<le> 7 \<and> (7::rat) \<le> 10 \<and> finite_decimal 7
   \<and> finite_decimal (rating example_review_half)
   \<and> reviews (handleReviewSubmit (example_page\<lparr>rating_state := Some 7, comment_state := ''Good'',
       reviews := [example_review_half], errorMessage := ''old''\<rparr>))
      = [example_review_half, \<lparr>rating = 7, comment = ''Good''\<rparr>]
   \<and> loadReviewsFromLocalStorage
        (localStorage (handleReviewSubmit (example_page\<lparr>rating_state := Some 7,
           comment_state := ''Good'', reviews := [example_review_half], errorMessage := ''old''\<rparr>)))
        42
      = Inr (JArray [JObject [(''rating'', JNumber (15 / 2)), (''comment'', JString ''A \"B\"'')],
                     JObject [(''rating'', JNumber 7), (''comment'', JString ''Good'')]])
   \<and> map_sum id reviews_of_js
        (loadReviewsFromLocalStorage
          (localStorage (handleReviewSubmit (example_page\<lparr>rating_state := Some 7,
             comment_state := ''Good'', reviews := [example_review_half], errorMessage := ''old''\<rparr>)))
          42)
      = Inr (Some [example_review_half, \<lparr>rating = 7, comment = ''Good''\<rparr>])
   \<and> rating_state (handleReviewSubmit (example_page\<lparr>rating_state := Some 7,
         comment_state := ''Good'', reviews := [example_review_half], errorMessage := ''old''\<rparr>)) = None
   \<and> comment_state (handleReviewSubmit (example_page\<lparr>rating_state := Some 7,
         comment_state := ''Good'', reviews := [example_review_half], errorMessage := ''old''\<rparr>)) = []
   \<and> errorMessage (handleReviewSubmit (example_page\<lparr>rating_state := Some 7,
         comment_state := ''Good'', reviews := [example_review_half], errorMessage := ''old''\<rparr>)) = []"
proof -
  let ?s = "example_page\<lparr>rating_state := Some 7, comment_state := ''Good'',
       reviews := [example_review_half], errorMessage := ''old''\<rparr>"
  have a: "finite_decimal 7"
    using finite_decimal_of_int [of 7] by simp
  have b: "finite_decimal (rating example_review_half)"
    using finite_decimal_halves [of 15] by (simp add: example_review_half_def)
  have 1: "currentMovie ?s = Some example_movie" and 2: "rating_state ?s = Some 7"
    and 6: "comment_state ?s \<noteq> []" and 7: "\<forall>x\<in>set (reviews ?s). finite_decimal (rating x)"
    using b by (simp_all add: example_page_def)
  have 3: "(1::rat) \<le> 7" and 4: "(7::rat) \<le> 10" by simp_all
  have f: "reviews ?s = [example_review_half]" "comment_state ?s = ''Good''"
    "id' example_movie = 42"
    by (simp_all add: example_movie_def)
  have j: "js_of_reviews [example_review_half, \<lparr>rating = 7, comment = ''Good''\<rparr>]
      = JArray [JObject [(''rating'', JNumber (15 / 2)), (''comment'', JString ''A \"B\"'')],
                JObject [(''rating'', JNumber 7), (''comment'', JString ''Good'')]]"
    by (simp add: js_of_reviews_def js_of_review_def example_review_half_def)
  note handleReviewSubmit_appends [OF 1 2 3 4 a 6 7, unfolded f append.simps j]
  with 1 3 4 a b show ?thesis
    by blast
qed

end
